theory Spec2Isabelle
  imports Complex_Main "HOL-Library.Word"
begin

unbundle bit_operations_syntax

section \<open>JavaScript values\<close>

text \<open>
  A JavaScript number is modelled as a real or \<open>NaN\<close>: the rounding of IEEE doubles and of
  \<open>Float32Array\<close> stores, the two infinities and the sign of zero are not modelled. Reading
  an array outside its range gives \<open>undefined\<close>, which arithmetic turns into \<open>NaN\<close>.
\<close>

datatype jsnum = NaN | Num real

type_synonym byte = "8 word"

text \<open>The exceptions a run can end with: the \<open>throw new Error(msg)\<close> of the parameter
  validation, and the two that the engine raises itself.\<close>

datatype error = Error string | TypeError | RangeError

text \<open>\<open>types.ts\<close>: the mesh buffers. The guard of \<open>exportToSTL\<close> tests \<open>!indices\<close>, so
  the field can be absent when the function runs: \<open>None\<close>.\<close>

record MeshData =
  vertices :: "jsnum list"
  normals :: "jsnum list"
  indices :: "nat list option"

fun jsub :: "jsnum \<Rightarrow> jsnum \<Rightarrow> jsnum" where
  "jsub (Num a) (Num b) = Num (a - b)"
| "jsub _ _ = NaN"

fun jadd :: "jsnum \<Rightarrow> jsnum \<Rightarrow> jsnum" where
  "jadd (Num a) (Num b) = Num (a + b)"
| "jadd _ _ = NaN"

fun jmul :: "jsnum \<Rightarrow> jsnum \<Rightarrow> jsnum" where
  "jmul (Num a) (Num b) = Num (a * b)"
| "jmul _ _ = NaN"

text \<open>\<open>Math.sqrt\<close>; a negative argument gives \<open>NaN\<close>.\<close>

fun jsqrt :: "jsnum \<Rightarrow> jsnum" where
  "jsqrt (Num a) = (if a < 0 then NaN else Num (sqrt a))"
| "jsqrt NaN = NaN"

text \<open>Multiplication and division by a finite real (a length that was tested to be above
  \<open>1e-8\<close>, or its reciprocal).\<close>

fun jscale :: "jsnum \<Rightarrow> real \<Rightarrow> jsnum" where
  "jscale (Num a) k = Num (a * k)"
| "jscale NaN k = NaN"

fun jdivr :: "jsnum \<Rightarrow> real \<Rightarrow> jsnum" where
  "jdivr (Num a) l = Num (a / l)"
| "jdivr NaN l = NaN"

section \<open>Binary STL export (\<open>exportToSTL\<close>)\<close>

text \<open>What the call leaves behind: nothing, or one download of a byte buffer under a file
  name.\<close>

datatype export_result = NoOutput | Download string "byte list"

text \<open>Little-endian bytes of a 32-bit pattern, as \<open>DataView.setUint32(_, _, true)\<close> and
  \<open>setFloat32(_, _, true)\<close> store them.\<close>

definition le32 :: "32 word \<Rightarrow> byte list" where
  "le32 w = [ucast w, ucast (drop_bit 8 w), ucast (drop_bit 16 w), ucast (drop_bit 24 w)]"

definition le16 :: "16 word \<Rightarrow> byte list" where
  "le16 w = [ucast w, ucast (drop_bit 8 w)]"

text \<open>A \<open>DataView\<close> store of the bytes \<open>bs\<close> at \<open>off\<close>: a \<open>RangeError\<close> when the bytes do
  not fit into the buffer.\<close>

definition setBytes :: "byte list \<Rightarrow> nat \<Rightarrow> byte list \<Rightarrow> error + byte list" where
  "setBytes buf off bs =
     (if off + length bs \<le> length buf
      then Inr (take off buf @ bs @ drop (off + length bs) buf)
      else Inl RangeError)"

text \<open>The stores of one loop iteration, in program order; the first failing store ends the
  run.\<close>

fun writeAll :: "(nat \<times> byte list) list \<Rightarrow> byte list \<Rightarrow> error + byte list" where
  "writeAll [] buf = Inr buf"
| "writeAll ((off, bs) # ws) buf =
     (case setBytes buf off bs of Inl e \<Rightarrow> Inl e | Inr buf' \<Rightarrow> writeAll ws buf')"

text \<open>\<open>indices[k]\<close> and \<open>vertices[i * 3 + k]\<close>: \<open>undefined\<close> outside the array, and an
  \<open>undefined\<close> index reads \<open>undefined\<close> again, which is \<open>NaN\<close> as a number.\<close>

definition idxAt :: "nat list \<Rightarrow> nat \<Rightarrow> nat option" where
  "idxAt idx k = (if k < length idx then Some (idx ! k) else None)"

definition coord :: "jsnum list \<Rightarrow> nat option \<Rightarrow> nat \<Rightarrow> jsnum" where
  "coord vs i k =
     (case i of None \<Rightarrow> NaN
      | Some j \<Rightarrow> if j * 3 + k < length vs then vs ! (j * 3 + k) else NaN)"

text \<open>The face normal of triangle \<open>f\<close>: the cross product of two edge vectors, divided by its
  length when that is above \<open>1e-8\<close>, the zero vector otherwise.\<close>

definition faceNormal :: "jsnum list \<Rightarrow> nat list \<Rightarrow> nat \<Rightarrow> jsnum \<times> jsnum \<times> jsnum" where
  "faceNormal vs idx f =
     (let i0 = idxAt idx (f * 3); i1 = idxAt idx (f * 3 + 1); i2 = idxAt idx (f * 3 + 2);
          ax = jsub (coord vs i1 0) (coord vs i0 0);
          ay = jsub (coord vs i1 1) (coord vs i0 1);
          az = jsub (coord vs i1 2) (coord vs i0 2);
          bx = jsub (coord vs i2 0) (coord vs i0 0);
          by = jsub (coord vs i2 1) (coord vs i0 1);
          bz = jsub (coord vs i2 2) (coord vs i0 2);
          nx = jsub (jmul ay bz) (jmul az by);
          ny = jsub (jmul az bx) (jmul ax bz);
          nz = jsub (jmul ax by) (jmul ay bx);
          len = jsqrt (jadd (jadd (jmul nx nx) (jmul ny ny)) (jmul nz nz))
      in case len of
           Num l \<Rightarrow> if l > 1 / 10 ^ 8 then (jdivr nx l, jdivr ny l, jdivr nz l)
                    else (Num 0, Num 0, Num 0)
         | NaN \<Rightarrow> (Num 0, Num 0, Num 0))"

text \<open>The thirteen stores of the loop body for triangle \<open>f\<close> at \<open>offset\<close>. The parameter
  \<open>f32\<close> is the binary32 pattern that \<open>setFloat32\<close> stores for a number.\<close>

definition triWrites ::
  "(jsnum \<Rightarrow> 32 word) \<Rightarrow> jsnum list \<Rightarrow> nat list \<Rightarrow> nat \<Rightarrow> nat \<Rightarrow> (nat \<times> byte list) list" where
  "triWrites f32 vs idx f offset =
     (let i0 = idxAt idx (f * 3); i1 = idxAt idx (f * 3 + 1); i2 = idxAt idx (f * 3 + 2);
          (nx, ny, nz) = faceNormal vs idx f
      in [(offset, le32 (f32 nx)),
          (offset + 4, le32 (f32 ny)),
          (offset + 8, le32 (f32 nz)),
          (offset + 12, le32 (f32 (coord vs i0 0))),
          (offset + 16, le32 (f32 (coord vs i0 1))),
          (offset + 20, le32 (f32 (coord vs i0 2))),
          (offset + 24, le32 (f32 (coord vs i1 0))),
          (offset + 28, le32 (f32 (coord vs i1 1))),
          (offset + 32, le32 (f32 (coord vs i1 2))),
          (offset + 36, le32 (f32 (coord vs i2 0))),
          (offset + 40, le32 (f32 (coord vs i2 1))),
          (offset + 44, le32 (f32 (coord vs i2 2))),
          (offset + 48, le16 0)])"

text \<open>\<open>for (let f = 0; f < numTriangles; f++)\<close> with \<open>numTriangles = indices.length / 3\<close>, a
  fraction when the length is no multiple of three: the test is \<open>3 * f < indices.length\<close>.\<close>

function stlLoop ::
  "(jsnum \<Rightarrow> 32 word) \<Rightarrow> jsnum list \<Rightarrow> nat list \<Rightarrow> nat \<Rightarrow> nat \<Rightarrow> byte list \<Rightarrow> error + byte list"
where
  "stlLoop f32 vs idx f offset buf =
     (if f * 3 < length idx
      then (case writeAll (triWrites f32 vs idx f offset) buf of
              Inl e \<Rightarrow> Inl e
            | Inr buf' \<Rightarrow> stlLoop f32 vs idx (f + 1) (offset + 50) buf')
      else Inr buf)"
  by pat_completeness auto
termination
  by (relation "measure (\<lambda>(f32, vs, idx, f, offset, buf). length idx - f * 3)") auto

text \<open>\<open>new ArrayBuffer(80 + 4 + numTriangles * 50)\<close> truncates a fractional length;
  \<open>setUint32(80, numTriangles, true)\<close> truncates the count and takes it modulo \<open>2^32\<close>.\<close>

definition exportToSTL :: "(jsnum \<Rightarrow> 32 word) \<Rightarrow> MeshData \<Rightarrow> string \<Rightarrow> error + export_result" where
  "exportToSTL f32 data filename =
     (case indices data of
        None \<Rightarrow> Inr NoOutput
      | Some idx \<Rightarrow>
          if length idx = 0 then Inr NoOutput
          else
            (let bufferLength = 80 + 4 + (length idx * 50) div 3;
                 buffer = replicate bufferLength (0 :: byte)
             in case setBytes buffer 80 (le32 (word_of_nat (length idx div 3))) of
                  Inl e \<Rightarrow> Inl e
                | Inr view \<Rightarrow>
                    (case stlLoop f32 (vertices data) idx 0 84 view of
                       Inl e \<Rightarrow> Inl e
                     | Inr bytes \<Rightarrow> Inr (Download filename bytes))))"

text \<open>The layout in the words of the specification: one fifty-byte record per triangle, the
  face normal, the three corners, and an attribute count of zero.\<close>

definition stlRecord :: "(jsnum \<Rightarrow> 32 word) \<Rightarrow> jsnum list \<Rightarrow> nat list \<Rightarrow> nat \<Rightarrow> byte list" where
  "stlRecord f32 vs idx f =
     (let n = faceNormal vs idx f;
          corner = (\<lambda>c. concat (map (\<lambda>k. le32 (f32 (coord vs (idxAt idx (f * 3 + c)) k))) [0, 1, 2]))
      in le32 (f32 (fst n)) @ le32 (f32 (fst (snd n))) @ le32 (f32 (snd (snd n)))
         @ corner 0 @ corner 1 @ corner 2 @ [0, 0])"

definition stlFile :: "(jsnum \<Rightarrow> 32 word) \<Rightarrow> jsnum list \<Rightarrow> nat list \<Rightarrow> byte list" where
  "stlFile f32 vs idx =
     replicate 80 0 @ le32 (word_of_nat (length idx div 3))
     @ concat (map (stlRecord f32 vs idx) [0 ..< length idx div 3])"

section \<open>Parameters and grid (\<open>generateGyroidMesh\<close>, lines 224 to 251)\<close>

text \<open>\<open>types.ts\<close>: the parameter record. The three fields that the validation tests can be
  \<open>NaN\<close>; the other numbers are taken to be finite. A field that the destructuring gives a
  default can be absent: \<open>None\<close>.\<close>

record GenParams =
  size_p :: jsnum
  cellSize :: jsnum
  wallThickness :: real
  useFrame :: "bool option"
  shellThickness :: real
  frameBeamWidth :: "real option"
  resolution :: jsnum
  smoothingIterations :: "real option"
  makeManifold :: "bool option"

text \<open>The destructuring defaults \<open>useFrame = false\<close>, \<open>frameBeamWidth = 10\<close>,
  \<open>smoothingIterations = 10\<close> and \<open>makeManifold = false\<close>.\<close>

definition useFrame_d :: "GenParams \<Rightarrow> bool" where
  "useFrame_d p = (case useFrame p of None \<Rightarrow> False | Some b \<Rightarrow> b)"

definition frameBeamWidth_d :: "GenParams \<Rightarrow> real" where
  "frameBeamWidth_d p = (case frameBeamWidth p of None \<Rightarrow> 10 | Some w \<Rightarrow> w)"

definition smoothingIterations_d :: "GenParams \<Rightarrow> real" where
  "smoothingIterations_d p = (case smoothingIterations p of None \<Rightarrow> 10 | Some n \<Rightarrow> n)"

definition makeManifold_d :: "GenParams \<Rightarrow> bool" where
  "makeManifold_d p = (case makeManifold p of None \<Rightarrow> False | Some b \<Rightarrow> b)"

text \<open>\<open>!x\<close> on a number: true for \<open>0\<close> and for \<open>NaN\<close>. \<open>x <= 0\<close>: false for \<open>NaN\<close>.\<close>

definition falsy :: "jsnum \<Rightarrow> bool" where
  "falsy x = (case x of NaN \<Rightarrow> True | Num r \<Rightarrow> r = 0)"

definition jle0 :: "jsnum \<Rightarrow> bool" where
  "jle0 x = (case x of NaN \<Rightarrow> False | Num r \<Rightarrow> r \<le> 0)"

text \<open>The three \<open>throw\<close> statements, in program order; \<open>None\<close> when all tests pass.\<close>

definition validate :: "GenParams \<Rightarrow> error option" where
  "validate p =
     (if falsy (cellSize p) \<or> jle0 (cellSize p) then Some (Error ''Invalid cell size'')
      else if falsy (resolution p) \<or> jle0 (resolution p) then Some (Error ''Invalid resolution'')
      else if falsy (size_p p) \<or> jle0 (size_p p) then Some (Error ''Invalid size'')
      else None)"

text \<open>\<open>Math.round\<close> rounds to the nearest integer, a half upwards.\<close>

definition js_round :: "real \<Rightarrow> int" where
  "js_round x = \<lfloor>x + 1 / 2\<rfloor>"

text \<open>The constants that the run derives from size, cell size and resolution. For a
  resolution below one, \<open>res\<close> is zero and \<open>step\<close> is infinite in JavaScript (zero here): the
  grid then is a single point, which the boundary voider clears, and no cube is walked.\<close>

record Grid =
  snappedCellCount :: int
  snappedCellSize :: real
  scale :: real
  res :: nat
  step :: real
  half :: real
  np :: nat
  np2 :: nat
  total :: nat

definition grid :: "real \<Rightarrow> real \<Rightarrow> real \<Rightarrow> Grid" where
  "grid sz cs rs =
     (let count = max 1 (js_round (sz / cs));
          snapped = sz / real_of_int count;
          r = nat \<lfloor>rs\<rfloor>;
          n = r + 1
      in \<lparr> snappedCellCount = count,
           snappedCellSize = snapped,
           scale = (2 * pi) / snapped,
           res = r,
           step = sz / real r,
           half = sz / 2,
           np = n,
           np2 = n * n,
           total = n * n * n \<rparr>)"

section \<open>Field builder\<close>

definition mmCoords :: "Grid \<Rightarrow> nat \<Rightarrow> real" where
  "mmCoords g i = - half g + real i * step g"

definition radCoords :: "Grid \<Rightarrow> nat \<Rightarrow> real" where
  "radCoords g i = mmCoords g i * scale g"

definition sinRad :: "Grid \<Rightarrow> nat \<Rightarrow> real" where
  "sinRad g i = sin (radCoords g i)"

definition cosRad :: "Grid \<Rightarrow> nat \<Rightarrow> real" where
  "cosRad g i = cos (radCoords g i)"

text \<open>The structural boundary at a voxel with the millimetre coordinates \<open>xMM\<close>, \<open>yMM\<close>,
  \<open>zMM\<close>: the frame of twelve edge beams, or the shell with its port openings.\<close>

definition structural ::
  "Grid \<Rightarrow> bool \<Rightarrow> real \<Rightarrow> real \<Rightarrow> bool \<Rightarrow> real \<Rightarrow> real \<Rightarrow> real \<Rightarrow> bool \<Rightarrow> bool \<Rightarrow> bool" where
  "structural g useFrame' frameBeamWidth' shellThickness' makeManifold' xMM yMM zMM channelA channelB =
     (if useFrame' then
        (let bw = frameBeamWidth';
             nearX = (\<bar>xMM\<bar> \<ge> half g - bw);
             nearY = (\<bar>yMM\<bar> \<ge> half g - bw);
             nearZ = (\<bar>zMM\<bar> \<ge> half g - bw)
         in (nearX \<and> nearY) \<or> (nearX \<and> nearZ) \<or> (nearY \<and> nearZ))
      else
        (let faceDepth = shellThickness' + step g * 2;
             inInner = (\<bar>xMM\<bar> \<le> half g - shellThickness'
                        \<and> \<bar>yMM\<bar> \<le> half g - shellThickness'
                        \<and> \<bar>zMM\<bar> \<le> half g - shellThickness');
             structural0 = (\<not> inInner)
         in if structural0 \<and> \<not> makeManifold' then
              (let zFace = (zMM < - half g + faceDepth \<or> zMM > half g - faceDepth);
                   xFace = (xMM < - half g + faceDepth \<or> xMM > half g - faceDepth);
                   edgeMargin = shellThickness' + step g;
                   nearYEdge = (yMM < - half g + edgeMargin \<or> yMM > half g - edgeMargin);
                   openA = (zFace \<and> \<not> xFace \<and> \<not> nearYEdge \<and> channelA);
                   openB = (xFace \<and> \<not> zFace \<and> \<not> nearYEdge \<and> channelB)
               in if openA \<or> openB then False else structural0)
            else structural0))"

text \<open>The gyroid function at the grid point \<open>(xi, yi, zi)\<close>, from the tabulated sines and
  cosines.\<close>

definition gyroidG :: "Grid \<Rightarrow> nat \<Rightarrow> nat \<Rightarrow> nat \<Rightarrow> real" where
  "gyroidG g xi yi zi =
     sinRad g xi * cosRad g yi + sinRad g yi * cosRad g zi + sinRad g zi * cosRad g xi"

text \<open>The grid point of the field index \<open>idx\<close>.\<close>

definition gridPoint :: "Grid \<Rightarrow> nat \<Rightarrow> nat \<times> nat \<times> nat" where
  "gridPoint g idx =
     (let zi = idx div np2 g;
          rem = idx - zi * np2 g;
          yi = rem div np g;
          xi = rem - yi * np g
      in (xi, yi, zi))"

text \<open>One voxel of the field: \<open>1\<close> for solid, \<open>0\<close> for void.\<close>

definition voxel :: "Grid \<Rightarrow> GenParams \<Rightarrow> nat \<Rightarrow> nat" where
  "voxel g p idx =
     (let (xi, yi, zi) = gridPoint g idx;
          xMM = mmCoords g xi; yMM = mmCoords g yi; zMM = mmCoords g zi;
          G = gyroidG g xi yi zi;
          channelA = (G > wallThickness p);
          channelB = (G < - wallThickness p);
          gyroidWall = (\<not> channelA \<and> \<not> channelB)
      in if structural g (useFrame_d p) (frameBeamWidth_d p) (shellThickness p) (makeManifold_d p)
              xMM yMM zMM channelA channelB \<or> gyroidWall
         then 1 else 0)"

definition buildField :: "Grid \<Rightarrow> GenParams \<Rightarrow> nat list" where
  "buildField g p = map (voxel g p) [0 ..< total g]"

section \<open>Boundary voider\<close>

text \<open>The six stores of the loop body; a typed array ignores a store outside its range, as
  list update does.\<close>

definition voidAt :: "Grid \<Rightarrow> nat \<Rightarrow> nat \<Rightarrow> nat list \<Rightarrow> nat list" where
  "voidAt g a b f =
     f[0 + a * np g + b * np2 g := 0,
       res g + a * np g + b * np2 g := 0,
       a + 0 + b * np2 g := 0,
       a + res g * np g + b * np2 g := 0,
       a + b * np g := 0,
       a + b * np g + res g * np2 g := 0]"

definition voidBoundary :: "Grid \<Rightarrow> nat list \<Rightarrow> nat list" where
  "voidBoundary g f = fold (\<lambda>a. fold (\<lambda>b. voidAt g a b) [0 ..< np g]) [0 ..< np g] f"

section \<open>Taubin smoothing (\<open>taubinSmooth\<close>)\<close>

text \<open>\<open>[...new Set(xs)]\<close>: the distinct elements in the order of their first occurrence.\<close>

definition uniq :: "'a list \<Rightarrow> 'a list" where
  "uniq xs = fold (\<lambda>x acc. if x \<in> set acc then acc else acc @ [x]) xs []"

text \<open>One face of the adjacency loop. \<open>adjTemp[a].push(b, c)\<close> raises a \<open>TypeError\<close> when
  \<open>adjTemp[a]\<close> is \<open>undefined\<close>, that is when \<open>a\<close> is no vertex or was read past the end of
  \<open>indices\<close>; each of the three corners is used so once in the body.\<close>

definition adjFace :: "nat \<Rightarrow> nat list \<Rightarrow> nat \<Rightarrow> nat list list \<Rightarrow> error + nat list list" where
  "adjFace numVerts idx f adjTemp =
     (case (idxAt idx (f * 3), idxAt idx (f * 3 + 1), idxAt idx (f * 3 + 2)) of
        (Some a, Some b, Some c) \<Rightarrow>
          if a < numVerts \<and> b < numVerts \<and> c < numVerts then
            (let t1 = adjTemp[a := adjTemp ! a @ [b, c]];
                 t2 = t1[b := t1 ! b @ [a, c]];
                 t3 = t2[c := t2 ! c @ [a, b]]
             in Inr t3)
          else Inl TypeError
      | _ \<Rightarrow> Inl TypeError)"

text \<open>\<open>for (let f = 0; f < numFaces; f++)\<close> with \<open>numFaces = indices.length / 3\<close>.\<close>

function adjLoop :: "nat \<Rightarrow> nat list \<Rightarrow> nat \<Rightarrow> nat list list \<Rightarrow> error + nat list list" where
  "adjLoop numVerts idx f adjTemp =
     (if f * 3 < length idx
      then (case adjFace numVerts idx f adjTemp of
              Inl e \<Rightarrow> Inl e
            | Inr t \<Rightarrow> adjLoop numVerts idx (f + 1) t)
      else Inr adjTemp)"
  by pat_completeness auto
termination
  by (relation "measure (\<lambda>(numVerts, idx, f, adjTemp). length idx - f * 3)") auto

text \<open>The compressed rows: \<open>adjOffset[v]\<close> is where the neighbours of \<open>v\<close> start in \<open>adj\<close>.\<close>

definition buildCSR :: "nat \<Rightarrow> nat list list \<Rightarrow> nat list \<times> nat list" where
  "buildCSR numVerts adjTemp =
     (let (adjOffset, adjList) =
            fold (\<lambda>v (off, lst). (off[v := length lst], lst @ uniq (adjTemp ! v)))
                 [0 ..< numVerts] (replicate (numVerts + 1) 0, [])
      in (adjOffset[numVerts := length adjList], adjList))"

text \<open>The body of the loop over \<open>v\<close> in one half step: \<open>temp\<close> is the copy of the positions
  taken at the start of the half step, \<open>result\<close> the array being written.\<close>

definition smoothVertex ::
  "nat list \<Rightarrow> nat list \<Rightarrow> real \<Rightarrow> real list \<Rightarrow> nat \<Rightarrow> real list \<Rightarrow> real list" where
  "smoothVertex adjOffset adj factor temp v result =
     (let start = adjOffset ! v;
          end' = adjOffset ! (v + 1);
          count = end' - start
      in if count = 0 then result
         else
           (let sx = fold (\<lambda>j s. s + temp ! (adj ! j * 3)) [start ..< end'] 0;
                sy = fold (\<lambda>j s. s + temp ! (adj ! j * 3 + 1)) [start ..< end'] 0;
                sz = fold (\<lambda>j s. s + temp ! (adj ! j * 3 + 2)) [start ..< end'] 0;
                inv = 1 / real count
            in result[v * 3 := temp ! (v * 3) + factor * (sx * inv - temp ! (v * 3)),
                      v * 3 + 1 := temp ! (v * 3 + 1) + factor * (sy * inv - temp ! (v * 3 + 1)),
                      v * 3 + 2 := temp ! (v * 3 + 2) + factor * (sz * inv - temp ! (v * 3 + 2))]))"

text \<open>One half step \<open>iter\<close>: the factor is \<open>lambda = 0.5\<close> for an even and \<open>mu = -0.53\<close> for
  an odd \<open>iter\<close>.\<close>

definition halfStep :: "nat \<Rightarrow> nat list \<Rightarrow> nat list \<Rightarrow> nat \<Rightarrow> real list \<Rightarrow> real list" where
  "halfStep numVerts adjOffset adj iter result =
     (let factor = (if iter mod 2 = 0 then 1 / 2 else - (53 / 100));
          temp = result
      in fold (smoothVertex adjOffset adj factor temp) [0 ..< numVerts] result)"

text \<open>\<open>new Array(numVerts)\<close> raises a \<open>RangeError\<close> for a fractional length. The loop
  \<open>for (iter = 0; iter < iterations * 2; iter++)\<close> runs for the integers below twice the
  number of iterations.\<close>

definition taubinSmooth :: "real list \<Rightarrow> nat list \<Rightarrow> real \<Rightarrow> error + real list" where
  "taubinSmooth positions idx iterations =
     (if iterations \<le> 0 \<or> length positions = 0 then Inr positions
      else if length positions mod 3 \<noteq> 0 then Inl RangeError
      else
        (let numVerts = length positions div 3
         in case adjLoop numVerts idx 0 (replicate numVerts []) of
              Inl e \<Rightarrow> Inl e
            | Inr adjTemp \<Rightarrow>
                (let (adjOffset, adj) = buildCSR numVerts adjTemp
                 in Inr (fold (halfStep numVerts adjOffset adj)
                              [0 ..< nat \<lceil>iterations * 2\<rceil>] positions))))"

section \<open>Vertex normals (\<open>computeVertexNormals\<close>)\<close>

text \<open>A coordinate of the positions as a number: \<open>NaN\<close> when the read is out of range.\<close>

definition pcoord :: "real list \<Rightarrow> nat option \<Rightarrow> nat \<Rightarrow> jsnum" where
  "pcoord pos i k =
     (case i of None \<Rightarrow> NaN
      | Some j \<Rightarrow> if j * 3 + k < length pos then Num (pos ! (j * 3 + k)) else NaN)"

text \<open>\<open>normals[i * 3 + k] += d\<close>: nothing is stored outside the array.\<close>

definition accum :: "jsnum list \<Rightarrow> nat option \<Rightarrow> nat \<Rightarrow> jsnum \<Rightarrow> jsnum list" where
  "accum ns i k d =
     (case i of None \<Rightarrow> ns
      | Some j \<Rightarrow> if j * 3 + k < length ns then ns[j * 3 + k := jadd (ns ! (j * 3 + k)) d] else ns)"

definition normalFace :: "real list \<Rightarrow> nat list \<Rightarrow> nat \<Rightarrow> jsnum list \<Rightarrow> jsnum list" where
  "normalFace pos idx f ns =
     (let i0 = idxAt idx (f * 3); i1 = idxAt idx (f * 3 + 1); i2 = idxAt idx (f * 3 + 2);
          ax = jsub (pcoord pos i1 0) (pcoord pos i0 0);
          ay = jsub (pcoord pos i1 1) (pcoord pos i0 1);
          az = jsub (pcoord pos i1 2) (pcoord pos i0 2);
          bx = jsub (pcoord pos i2 0) (pcoord pos i0 0);
          by = jsub (pcoord pos i2 1) (pcoord pos i0 1);
          bz = jsub (pcoord pos i2 2) (pcoord pos i0 2);
          nx = jsub (jmul ay bz) (jmul az by);
          ny = jsub (jmul az bx) (jmul ax bz);
          nz = jsub (jmul ax by) (jmul ay bx)
      in fold (\<lambda>i n. accum (accum (accum n i 0 nx) i 1 ny) i 2 nz) [i0, i1, i2] ns)"

definition normalize :: "nat \<Rightarrow> jsnum list \<Rightarrow> jsnum list" where
  "normalize v ns =
     (let x = ns ! (v * 3); y = ns ! (v * 3 + 1); z = ns ! (v * 3 + 2);
          len = jsqrt (jadd (jadd (jmul x x) (jmul y y)) (jmul z z))
      in case len of
           Num l \<Rightarrow> if l > 1 / 10 ^ 8
                    then ns[v * 3 := jscale x (1 / l), v * 3 + 1 := jscale y (1 / l),
                            v * 3 + 2 := jscale z (1 / l)]
                    else ns
         | NaN \<Rightarrow> ns)"

text \<open>The faces \<open>f\<close> with \<open>f < idx.length / 3\<close> are those below the length divided by three,
  rounded up. The positions that reach this function have a length that is a multiple of
  three, so that \<open>numVerts * 3\<close> is their length.\<close>

definition computeVertexNormals :: "real list \<Rightarrow> nat list \<Rightarrow> jsnum list" where
  "computeVertexNormals pos idx =
     (let numVerts = length pos div 3;
          normals0 = replicate (numVerts * 3) (Num 0);
          normals1 = fold (normalFace pos idx) [0 ..< (length idx + 2) div 3] normals0
      in fold normalize [0 ..< numVerts] normals1)"

section \<open>Marching cubes\<close>

text \<open>Corner \<open>i\<close> of a cube is at \<open>(dX[i], dY[i], dZ[i])\<close> from the cube origin.\<close>

definition dX :: "nat list" where "dX = [0, 1, 1, 0, 0, 1, 1, 0]"
definition dY :: "nat list" where "dY = [0, 0, 1, 1, 0, 0, 1, 1]"
definition dZ :: "nat list" where "dZ = [0, 0, 0, 0, 1, 1, 1, 1]"

text \<open>For each of the twelve edges: the corner at which its cache entry lives, and its axis
  (\<open>0\<close> for x, \<open>1\<close> for y, \<open>2\<close> for z).\<close>

definition EDGE_CACHE_CORNER :: "nat list" where
  "EDGE_CACHE_CORNER = [0, 1, 3, 0, 4, 5, 7, 4, 0, 1, 2, 3]"

definition EDGE_DIR :: "nat list" where
  "EDGE_DIR = [0, 1, 0, 1, 0, 1, 0, 1, 2, 2, 2, 2]"

text \<open>The two lookup tables are imported from the module \<open>constants\<close>, which is not modelled:
  the tables are a parameter of the run. An entry read outside a table is \<open>undefined\<close>. A
  vertex number stored in a cache or in the face buffer is below the number of vertices,
  far below \<open>2^31\<close>, so the 32-bit arrays hold it unchanged.\<close>

record Tables =
  EDGE_TABLE :: "nat list"
  TRI_TABLE :: "int list"

definition edgeEntry :: "Tables \<Rightarrow> nat \<Rightarrow> nat option" where
  "edgeEntry T i = (if i < length (EDGE_TABLE T) then Some (EDGE_TABLE T ! i) else None)"

definition triEntry :: "Tables \<Rightarrow> nat \<Rightarrow> int option" where
  "triEntry T i = (if i < length (TRI_TABLE T) then Some (TRI_TABLE T ! i) else None)"

text \<open>\<open>cornerOff[c] = dX[c] + dY[c] * np + dZ[c] * np2\<close> and \<open>axisDelta = [1, np, np2]\<close>.\<close>

definition cornerOff :: "Grid \<Rightarrow> nat \<Rightarrow> nat" where
  "cornerOff g c = dX ! c + dY ! c * np g + dZ ! c * np2 g"

definition axisDelta :: "Grid \<Rightarrow> nat \<Rightarrow> nat" where
  "axisDelta g d = [1, np g, np2 g] ! d"

text \<open>The buffers that the walk over the cubes updates: the flat positions, the triangle
  corners (an \<open>undefined\<close> corner is \<open>None\<close>), and the three edge caches, one per axis.\<close>

record mc_state =
  positions :: "real list"
  faceIndices :: "int option list"
  caches :: "int list list"

definition solidAt :: "nat list \<Rightarrow> nat \<Rightarrow> nat option" where
  "solidAt f i = (if i < length f then Some (f ! i) else None)"

definition cacheAt :: "int list \<Rightarrow> nat \<Rightarrow> int option" where
  "cacheAt c i = (if i < length c then Some (c ! i) else None)"

text \<open>The position of the vertex on the grid edge that starts at the grid point \<open>baseIdx\<close>
  and runs along the axis \<open>dir\<close>: the interpolation between the two end samples, which are
  \<open>-1\<close> for solid and \<open>1\<close> for void.\<close>

definition edgePosition :: "Grid \<Rightarrow> nat list \<Rightarrow> nat \<Rightarrow> nat \<Rightarrow> real \<times> real \<times> real" where
  "edgePosition g solidField dir baseIdx =
     (let endA = baseIdx;
          endB = baseIdx + axisDelta g dir;
          fA = (if solidAt solidField endA = Some 1 then - 1 else 1 :: real);
          fB = (if solidAt solidField endB = Some 1 then - 1 else 1 :: real);
          diff = fB - fA;
          mu = (if \<bar>diff\<bar> > 1 / 10 ^ 6
                then (let m = - fA / diff in if m < 0 then 0 else if m > 1 then 1 else m)
                else 1 / 2);
          gz = baseIdx div np2 g;
          gy = (baseIdx - gz * np2 g) div np g;
          gx = baseIdx - gz * np2 g - gy * np g
      in if dir = 0 then
           (- half g + (real gx + mu) * step g,
            - half g + real gy * step g,
            - half g + real gz * step g)
         else if dir = 1 then
           (- half g + real gx * step g,
            - half g + (real gy + mu) * step g,
            - half g + real gz * step g)
         else
           (- half g + real gx * step g,
            - half g + real gy * step g,
            - half g + (real gz + mu) * step g))"

text \<open>\<open>getEdgeVertex\<close>: the vertex on edge \<open>edge\<close> of the cube at \<open>c0\<close>, from the cache or
  new. The test \<open>cache[baseIdx] >= 0\<close> is false for \<open>undefined\<close>. The number of vertices is
  \<open>positions.length / 3\<close>; the positions only grow by three numbers at a time.\<close>

definition getEdgeVertex :: "Grid \<Rightarrow> nat list \<Rightarrow> nat \<Rightarrow> nat \<Rightarrow> mc_state \<Rightarrow> int \<times> mc_state" where
  "getEdgeVertex g solidField edge c0 st =
     (let cacheCorner = EDGE_CACHE_CORNER ! edge;
          dir = EDGE_DIR ! edge;
          baseIdx = c0 + cornerOff g cacheCorner;
          cache = caches st ! dir
      in if (case cacheAt cache baseIdx of Some cached \<Rightarrow> cached \<ge> 0 | None \<Rightarrow> False)
         then (cache ! baseIdx, st)
         else
           (let (wx, wy, wz) = edgePosition g solidField dir baseIdx;
                vertIdx = int (length (positions st) div 3)
            in (vertIdx,
                st\<lparr> positions := positions st @ [wx, wy, wz],
                    caches := (caches st)[dir := cache[baseIdx := vertIdx]] \<rparr>)))"

text \<open>The cube index: bit \<open>c\<close> is set when corner \<open>c\<close> is void.\<close>

definition cubeIndexOf :: "Grid \<Rightarrow> nat list \<Rightarrow> nat \<Rightarrow> nat" where
  "cubeIndexOf g solidField c0 =
     fold (\<lambda>c ci. if solidAt solidField (c0 + cornerOff g c) = Some 0
                   then ci OR push_bit c 1 else ci) [0 ..< 8] 0"

text \<open>The loop that resolves a vertex for each active edge, from \<open>ev\<close> filled with \<open>-1\<close>.\<close>

definition resolveEdges ::
  "Grid \<Rightarrow> nat list \<Rightarrow> nat \<Rightarrow> nat \<Rightarrow> mc_state \<Rightarrow> int list \<times> mc_state" where
  "resolveEdges g solidField edges c0 st =
     fold (\<lambda>e (ev, s).
             if edges AND push_bit e 1 \<noteq> 0
             then (let (v, s') = getEdgeVertex g solidField e c0 s in (ev[e := v], s'))
             else (ev, s))
          [0 ..< 12] (replicate 12 (- 1), st)"

text \<open>\<open>ev[e]\<close> for a table entry \<open>e\<close>: \<open>undefined\<close> when the entry is \<open>undefined\<close> or no index
  of \<open>ev\<close>. The comparison \<open>ev[e] < 0\<close> is false for \<open>undefined\<close>.\<close>

definition evAt :: "int list \<Rightarrow> int option \<Rightarrow> int option" where
  "evAt ev e =
     (case e of None \<Rightarrow> None
      | Some k \<Rightarrow> if 0 \<le> k \<and> nat k < length ev then Some (ev ! nat k) else None)"

definition negative :: "int option \<Rightarrow> bool" where
  "negative v = (case v of None \<Rightarrow> False | Some n \<Rightarrow> n < 0)"

text \<open>The triangle loop \<open>for (t = 0; t < 16; t += 3)\<close> over the remaining values of \<open>t\<close>, with
  its \<open>break\<close> at the sentinel and its \<open>continue\<close> at an unresolved edge.\<close>

fun emitTriangles ::
  "Tables \<Rightarrow> nat \<Rightarrow> int list \<Rightarrow> nat list \<Rightarrow> int option list \<Rightarrow> int option list" where
  "emitTriangles T tBase ev [] faces = faces"
| "emitTriangles T tBase ev (t # ts) faces =
     (let e1 = triEntry T (tBase + t)
      in if e1 = Some (- 1) then faces
         else
           (let e2 = triEntry T (tBase + t + 1);
                e3 = triEntry T (tBase + t + 2)
            in if negative (evAt ev e1) \<or> negative (evAt ev e2) \<or> negative (evAt ev e3)
               then emitTriangles T tBase ev ts faces
               else emitTriangles T tBase ev ts (faces @ [evAt ev e1, evAt ev e2, evAt ev e3])))"

text \<open>The body of the innermost loop, for the cube at \<open>(x, y, z)\<close>. For an \<open>undefined\<close> table
  entry \<open>edges\<close> the test \<open>edges === 0\<close> is false and \<open>edges & (1 << e)\<close> is zero.\<close>

definition cube :: "Grid \<Rightarrow> Tables \<Rightarrow> nat list \<Rightarrow> nat \<Rightarrow> nat \<Rightarrow> nat \<Rightarrow> mc_state \<Rightarrow> mc_state" where
  "cube g T solidField x y z st =
     (let c0 = x + y * np g + z * np2 g;
          cubeIndex = cubeIndexOf g solidField c0;
          edges = edgeEntry T cubeIndex
      in if edges = Some 0 then st
         else
           (let (ev, st1) = resolveEdges g solidField (case edges of None \<Rightarrow> 0 | Some n \<Rightarrow> n) c0 st;
                tBase = push_bit 4 cubeIndex
            in st1\<lparr> faceIndices :=
                      emitTriangles T tBase ev [0, 3, 6, 9, 12, 15] (faceIndices st1) \<rparr>))"

definition mc_init :: "Grid \<Rightarrow> mc_state" where
  "mc_init g = \<lparr> positions = [], faceIndices = [],
                 caches = [replicate (total g) (- 1), replicate (total g) (- 1),
                           replicate (total g) (- 1)] \<rparr>"

text \<open>The walk: z outermost, then y, then x.\<close>

definition marchingCubes :: "Grid \<Rightarrow> Tables \<Rightarrow> nat list \<Rightarrow> mc_state" where
  "marchingCubes g T solidField =
     fold (\<lambda>z. fold (\<lambda>y. fold (\<lambda>x. cube g T solidField x y z) [0 ..< res g]) [0 ..< res g])
          [0 ..< res g] (mc_init g)"

text \<open>\<open>new Uint32Array(faceIndices)\<close>: \<open>undefined\<close> becomes \<open>0\<close>, a number is taken modulo
  \<open>2^32\<close>.\<close>

definition toUint32 :: "int option \<Rightarrow> nat" where
  "toUint32 v = (case v of None \<Rightarrow> 0 | Some n \<Rightarrow> nat (n mod 2 ^ 32))"

section \<open>Largest connected component (\<open>extractLargestComponent\<close>)\<close>

text \<open>One face of the loop that fills \<open>vertFaces\<close>: \<open>vertFaces[v].push(f)\<close> for its three
  corners, a \<open>TypeError\<close> when a corner is no vertex.\<close>

definition vertFacesFace :: "nat \<Rightarrow> nat list \<Rightarrow> nat \<Rightarrow> nat list list \<Rightarrow> error + nat list list" where
  "vertFacesFace numVerts idx f vertFaces =
     (case (idxAt idx (f * 3), idxAt idx (f * 3 + 1), idxAt idx (f * 3 + 2)) of
        (Some a, Some b, Some c) \<Rightarrow>
          if a < numVerts \<and> b < numVerts \<and> c < numVerts then
            (let t1 = vertFaces[a := vertFaces ! a @ [f]];
                 t2 = t1[b := t1 ! b @ [f]];
                 t3 = t2[c := t2 ! c @ [f]]
             in Inr t3)
          else Inl TypeError
      | _ \<Rightarrow> Inl TypeError)"

function vertFacesLoop :: "nat \<Rightarrow> nat list \<Rightarrow> nat \<Rightarrow> nat list list \<Rightarrow> error + nat list list" where
  "vertFacesLoop numVerts idx f vertFaces =
     (if f * 3 < length idx
      then (case vertFacesFace numVerts idx f vertFaces of
              Inl e \<Rightarrow> Inl e
            | Inr t \<Rightarrow> vertFacesLoop numVerts idx (f + 1) t)
      else Inr vertFaces)"
  by pat_completeness auto
termination
  by (relation "measure (\<lambda>(numVerts, idx, f, vertFaces). length idx - f * 3)") auto

text \<open>\<open>if (!visited[nf]) { visited[nf] = 1; stack.push(nf); }\<close>: an entry read outside
  \<open>visited\<close> is \<open>undefined\<close>, which counts as not visited.\<close>

definition visit :: "nat \<Rightarrow> nat list \<times> nat list \<Rightarrow> nat list \<times> nat list" where
  "visit nf vs =
     (case vs of (visited, stack) \<Rightarrow>
        if (if nf < length visited then visited ! nf = 0 else True)
        then (visited[nf := 1], stack @ [nf])
        else (visited, stack))"

text \<open>The loop over the three corners of the popped face \<open>f\<close>: iterating over
  \<open>vertFaces[v]\<close> raises a \<open>TypeError\<close> when that is \<open>undefined\<close>.\<close>

fun expand ::
  "nat list \<Rightarrow> nat list list \<Rightarrow> nat \<Rightarrow> nat list \<Rightarrow> nat list \<times> nat list \<Rightarrow> error + nat list \<times> nat list"
where
  "expand idx vertFaces f [] vs = Inr vs"
| "expand idx vertFaces f (k # ks) vs =
     (case idxAt idx (f * 3 + k) of
        None \<Rightarrow> Inl TypeError
      | Some v \<Rightarrow>
          if v < length vertFaces
          then expand idx vertFaces f ks (fold visit (vertFaces ! v) vs)
          else Inl TypeError)"

text \<open>\<open>while (stack.length > 0)\<close>: \<open>None\<close> stands for a loop that does not end.\<close>

partial_function (option) flood ::
  "nat list \<Rightarrow> nat list list \<Rightarrow> nat list \<Rightarrow> nat list \<Rightarrow> nat list
     \<Rightarrow> (error + nat list \<times> nat list) option"
where
  "flood idx vertFaces visited stack component =
     (if stack = [] then Some (Inr (visited, component))
      else
        (case expand idx vertFaces (last stack) [0, 1, 2] (visited, butlast stack) of
           Inl e \<Rightarrow> Some (Inl e)
         | Inr (visited', stack') \<Rightarrow> flood idx vertFaces visited' stack' (component @ [last stack])))"

text \<open>The loop over the seeds, with the visited marks and the best component so far.\<close>

fun seedLoop ::
  "nat list \<Rightarrow> nat list list \<Rightarrow> nat list \<Rightarrow> nat list \<times> nat list
     \<Rightarrow> (error + nat list \<times> nat list) option"
where
  "seedLoop idx vertFaces [] vb = Some (Inr vb)"
| "seedLoop idx vertFaces (seed # seeds) (visited, bestComp) =
     (if seed < length visited \<and> visited ! seed \<noteq> 0
      then seedLoop idx vertFaces seeds (visited, bestComp)
      else
        (case flood idx vertFaces (visited[seed := 1]) [seed] [] of
           None \<Rightarrow> None
         | Some (Inl e) \<Rightarrow> Some (Inl e)
         | Some (Inr (visited', component)) \<Rightarrow>
             seedLoop idx vertFaces seeds
               (visited', if length component > length bestComp then component else bestComp)))"

text \<open>One corner of the compaction loop: \<open>if (vertMap[v] === -1) vertMap[v] = newVertCount++;
  newIdx.push(vertMap[v])\<close>. A corner that is no vertex pushes \<open>undefined\<close>, which the
  \<open>Uint32Array\<close> holds as \<open>0\<close>.\<close>

definition remapCorner ::
  "nat list \<Rightarrow> nat \<Rightarrow> nat \<Rightarrow> int list \<times> nat \<times> nat list \<Rightarrow> int list \<times> nat \<times> nat list" where
  "remapCorner idx f k s =
     (case s of (vertMap, newVertCount, newIdx) \<Rightarrow>
        (case idxAt idx (f * 3 + k) of
           None \<Rightarrow> (vertMap, newVertCount, newIdx @ [0])
         | Some v \<Rightarrow>
             if v < length vertMap then
               (if vertMap ! v = - 1
                then (vertMap[v := int newVertCount], newVertCount + 1, newIdx @ [newVertCount])
                else (vertMap, newVertCount, newIdx @ [nat (vertMap ! v)]))
             else (vertMap, newVertCount, newIdx @ [0])))"

text \<open>The three corners of a kept face.\<close>

definition remapFace ::
  "nat list \<Rightarrow> nat \<Rightarrow> int list \<times> nat \<times> nat list \<Rightarrow> int list \<times> nat \<times> nat list" where
  "remapFace idx f s = fold (remapCorner idx f) [0, 1, 2] s"

text \<open>The loop that copies the positions of the kept vertices.\<close>

definition copyVertex :: "real list \<Rightarrow> int list \<Rightarrow> nat \<Rightarrow> real list \<Rightarrow> real list" where
  "copyVertex pos vertMap v newPos =
     (if vertMap ! v \<ge> 0
      then newPos[nat (vertMap ! v) * 3 := pos ! (v * 3),
                  nat (vertMap ! v) * 3 + 1 := pos ! (v * 3 + 1),
                  nat (vertMap ! v) * 3 + 2 := pos ! (v * 3 + 2)]
      else newPos)"

text \<open>The test \<open>numFaces < 100\<close> with \<open>numFaces = indices.length / 3\<close> is \<open>indices.length <
  300\<close>; \<open>new Array(numVerts)\<close> raises a \<open>RangeError\<close> for a fractional length.\<close>

definition extractLargestComponent ::
  "real list \<Rightarrow> nat list \<Rightarrow> (error + real list \<times> nat list) option" where
  "extractLargestComponent pos idx =
     (if length idx < 300 then Some (Inr (pos, idx))
      else if length pos mod 3 \<noteq> 0 then Some (Inl RangeError)
      else
        (let numVerts = length pos div 3
         in case vertFacesLoop numVerts idx 0 (replicate numVerts []) of
              Inl e \<Rightarrow> Some (Inl e)
            | Inr vertFaces \<Rightarrow>
                (case seedLoop idx vertFaces [0 ..< (length idx + 2) div 3]
                        (replicate (length idx div 3) 0, []) of
                   None \<Rightarrow> None
                 | Some (Inl e) \<Rightarrow> Some (Inl e)
                 | Some (Inr (visited, bestComp)) \<Rightarrow>
                     if length bestComp * 3 = length idx then Some (Inr (pos, idx))
                     else
                       (let (vertMap, newVertCount, newIdx) =
                              fold (remapFace idx) bestComp
                                   (replicate numVerts (- 1), 0, []);
                            newPos = fold (copyVertex pos vertMap) [0 ..< numVerts]
                                          (replicate (newVertCount * 3) 0)
                        in Some (Inr (newPos, newIdx))))))"

section \<open>The run (\<open>generateGyroidMesh\<close>)\<close>

text \<open>The stages after the validation, for the finite and positive size, cell size and
  resolution. The progress reports and the pauses that hand control back to the event loop
  touch none of the buffers and are left out.\<close>

definition pipeline :: "Tables \<Rightarrow> GenParams \<Rightarrow> real \<Rightarrow> real \<Rightarrow> real \<Rightarrow> (error + MeshData) option" where
  "pipeline T p sz cs rs =
     (let g = grid sz cs rs;
          solidField = voidBoundary g (buildField g p);
          st = marchingCubes g T solidField;
          posArr0 = positions st;
          idxArr0 = map toUint32 (faceIndices st)
      in case (if \<not> useFrame_d p then extractLargestComponent posArr0 idxArr0
               else Some (Inr (posArr0, idxArr0))) of
           None \<Rightarrow> None
         | Some (Inl e) \<Rightarrow> Some (Inl e)
         | Some (Inr (posArr1, idxArr)) \<Rightarrow>
             (case (if smoothingIterations_d p > 0
                    then taubinSmooth posArr1 idxArr (smoothingIterations_d p)
                    else Inr posArr1) of
                Inl e \<Rightarrow> Some (Inl e)
              | Inr posArr \<Rightarrow>
                  Some (Inr \<lparr> vertices = map Num posArr,
                              normals = computeVertexNormals posArr idxArr,
                              indices = Some idxArr \<rparr>)))"

text \<open>The value of a number that passed the validation, where \<open>NaN\<close> is rejected.\<close>

fun the_num :: "jsnum \<Rightarrow> real" where
  "the_num (Num r) = r"

definition generateGyroidMesh :: "Tables \<Rightarrow> GenParams \<Rightarrow> (error + MeshData) option" where
  "generateGyroidMesh T p =
     (case validate p of
        Some e \<Rightarrow> Some (Inl e)
      | None \<Rightarrow> pipeline T p (the_num (size_p p)) (the_num (cellSize p)) (the_num (resolution p)))"

section \<open>Predicates of the properties\<close>

text \<open>Vertex \<open>v\<close> of the flat positions \<open>ps\<close> lies in the plane \<open>a x + b y + c z = d\<close>; all
  vertices of \<open>ps\<close> lie in it.\<close>

definition planeEq :: "real \<Rightarrow> real \<Rightarrow> real \<Rightarrow> real \<Rightarrow> real list \<Rightarrow> nat \<Rightarrow> bool" where
  "planeEq a b c d ps v = (a * ps ! (v * 3) + b * ps ! (v * 3 + 1) + c * ps ! (v * 3 + 2) = d)"

definition onPlane :: "real \<Rightarrow> real \<Rightarrow> real \<Rightarrow> real \<Rightarrow> real list \<Rightarrow> bool" where
  "onPlane a b c d ps = (length ps mod 3 = 0 \<and> (\<forall>v < length ps div 3. planeEq a b c d ps v))"

text \<open>The positions of \<open>N\<close> vertices, all in the plane.\<close>

definition planeInv :: "real \<Rightarrow> real \<Rightarrow> real \<Rightarrow> real \<Rightarrow> nat \<Rightarrow> real list \<Rightarrow> bool" where
  "planeInv a b c d N ps = (length ps = N * 3 \<and> (\<forall>v < N. planeEq a b c d ps v))"

text \<open>A list of stores is contiguous from \<open>off\<close> when each store starts where the one before
  it ended.\<close>

fun contig :: "nat \<Rightarrow> (nat \<times> byte list) list \<Rightarrow> bool" where
  "contig off [] = True"
| "contig off ((o', bs) # ws) = (o' = off \<and> contig (off + length bs) ws)"

text \<open>The rows of an adjacency under construction: one row per vertex, and only vertices in
  the rows.\<close>

definition rowsBelow :: "nat \<Rightarrow> nat list list \<Rightarrow> bool" where
  "rowsBelow n t = (length t = n \<and> (\<forall>row \<in> set t. \<forall>x \<in> set row. x < n))"

text \<open>The three pushes of one face in \<open>taubinSmooth\<close>.\<close>

definition pushPairs :: "nat \<Rightarrow> nat \<Rightarrow> nat \<Rightarrow> nat list list \<Rightarrow> nat list list" where
  "pushPairs a b c t =
     (let t1 = t[a := t ! a @ [b, c]]; t2 = t1[b := t1 ! b @ [a, c]]
      in t2[c := t2 ! c @ [a, b]])"

text \<open>The concatenation of the deduplicated rows of the vertices below \<open>k\<close>.\<close>

definition csrRows :: "nat list list \<Rightarrow> nat \<Rightarrow> nat list" where
  "csrRows adjTemp k = concat (map (\<lambda>v. uniq (adjTemp ! v)) [0 ..< k])"

text \<open>The neighbours of \<open>v\<close> as the loop over \<open>j\<close> reads them from the compressed rows, and
  what the rows give for every vertex: the count is the number of neighbours, and the
  neighbours are vertices.\<close>

definition nbrs :: "nat list \<Rightarrow> nat list \<Rightarrow> nat \<Rightarrow> nat list" where
  "nbrs adjOffset adj v = map ((!) adj) [adjOffset ! v ..< adjOffset ! (v + 1)]"

definition csrOk :: "nat \<Rightarrow> nat list \<Rightarrow> nat list \<Rightarrow> bool" where
  "csrOk N adjOffset adj =
     (\<forall>v < N. adjOffset ! (v + 1) - adjOffset ! v = length (nbrs adjOffset adj v)
              \<and> (\<forall>n \<in> set (nbrs adjOffset adj v). n < N))"

text \<open>Modelled from the spec: the module \<open>constants\<close> is missing. The edge table has 256
  entries of 12-bit masks, the triangle table 256 rows of 16 edge numbers below twelve, with
  \<open>-1\<close> as the sentinel.\<close>

definition tablesOk :: "Tables \<Rightarrow> bool" where
  "tablesOk T =
     (length (EDGE_TABLE T) = 256 \<and> (\<forall>m \<in> set (EDGE_TABLE T). m < 4096)
      \<and> length (TRI_TABLE T) = 4096 \<and> (\<forall>e \<in> set (TRI_TABLE T). - 1 \<le> e \<and> e < 12))"

text \<open>The indices \<open>idx\<close> are the corners of whole triangles, each the number of one of the
  vertices that \<open>n\<close> flat coordinates hold; a mesh is well formed when its indices are so.\<close>

definition validIndices :: "nat \<Rightarrow> nat list \<Rightarrow> bool" where
  "validIndices n idx = (n mod 3 = 0 \<and> length idx mod 3 = 0 \<and> (\<forall>i \<in> set idx. i < n div 3))"

definition wellFormed :: "MeshData \<Rightarrow> bool" where
  "wellFormed m =
     (case indices m of None \<Rightarrow> False
      | Some idx \<Rightarrow> validIndices (length (vertices m)) idx)"

text \<open>The state of the walk over the cubes: the number of vertices so far, a triangle corner
  that is a vertex (an \<open>undefined\<close> corner becomes vertex \<open>0\<close>, which has to exist), and the
  invariant of the walk.\<close>

definition nverts :: "mc_state \<Rightarrow> nat" where
  "nverts st = length (positions st) div 3"

definition faceOk :: "nat \<Rightarrow> int option \<Rightarrow> bool" where
  "faceOk n v = (case v of None \<Rightarrow> 0 < n | Some k \<Rightarrow> 0 \<le> k \<and> k < int n)"

definition mcInv :: "mc_state \<Rightarrow> bool" where
  "mcInv st =
     (length (positions st) mod 3 = 0
      \<and> length (caches st) = 3
      \<and> (\<forall>c \<in> set (caches st). \<forall>k \<in> set c. k < int (nverts st))
      \<and> length (faceIndices st) mod 3 = 0
      \<and> (\<forall>v \<in> set (faceIndices st). faceOk (nverts st) v))"

definition evInv :: "int list \<times> mc_state \<Rightarrow> bool" where
  "evInv es =
     (case es of (ev, s) \<Rightarrow>
        mcInv s \<and> length ev = 12 \<and> (\<forall>x \<in> set ev. x < int (nverts s)))"

text \<open>Face \<open>f\<close> has its three corners inside \<open>idx\<close>, and they are vertices; the rows of
  \<open>vertFaces\<close> hold only such faces.\<close>

definition cornerOk :: "nat list \<Rightarrow> nat \<Rightarrow> nat \<Rightarrow> bool" where
  "cornerOk idx numVerts f =
     (f * 3 + 2 < length idx \<and> idx ! (f * 3) < numVerts \<and> idx ! (f * 3 + 1) < numVerts
      \<and> idx ! (f * 3 + 2) < numVerts)"

definition pushFace :: "nat \<Rightarrow> nat \<Rightarrow> nat \<Rightarrow> nat \<Rightarrow> nat list list \<Rightarrow> nat list list" where
  "pushFace a b c f t =
     (let t1 = t[a := t ! a @ [f]]; t2 = t1[b := t1 ! b @ [f]]
      in t2[c := t2 ! c @ [f]])"

definition rowsOk :: "nat list \<Rightarrow> nat \<Rightarrow> nat list list \<Rightarrow> bool" where
  "rowsOk idx numVerts t =
     (length t = numVerts \<and> (\<forall>row \<in> set t. \<forall>f \<in> set row. cornerOk idx numVerts f))"

text \<open>The invariant of the compaction loop, and the measure of the flood fill: the number of
  unvisited faces plus the height of the stack.\<close>

definition remapInv :: "nat \<Rightarrow> int list \<times> nat \<times> nat list \<Rightarrow> bool" where
  "remapInv numVerts s =
     (case s of (vertMap, n, newIdx) \<Rightarrow>
        length vertMap = numVerts
        \<and> (\<forall>x \<in> set vertMap. x = - 1 \<or> (0 \<le> x \<and> x < int n))
        \<and> (\<forall>i \<in> set newIdx. i < n))"

definition zeros :: "nat list \<Rightarrow> nat" where
  "zeros xs = length (filter (\<lambda>x. x = 0) xs)"

definition floodMeasure :: "nat list \<times> nat list \<Rightarrow> nat" where
  "floodMeasure vs = zeros (fst vs) + length (snd vs)"

text \<open>A number that is not strictly positive: below or equal to zero, or \<open>NaN\<close>.\<close>

definition notPositive :: "jsnum \<Rightarrow> bool" where
  "notPositive x = (case x of NaN \<Rightarrow> True | Num r \<Rightarrow> r \<le> 0)"

text \<open>The order of the vertices in the words of the specification. The active edges of the
  cube at \<open>c0\<close> are those whose bit is set in its entry of the edge table, each named by
  its axis and the grid point it starts at; the sweep lists them for all cubes, \<open>z\<close>
  outermost, then \<open>y\<close>, then \<open>x\<close>, then the edge number. The vertex of an edge is the
  triple of its coordinates.\<close>

definition activeEdges :: "Grid \<Rightarrow> Tables \<Rightarrow> nat list \<Rightarrow> nat \<Rightarrow> (nat \<times> nat) list" where
  "activeEdges g T solidField c0 =
     (let bits = (case edgeEntry T (cubeIndexOf g solidField c0) of None \<Rightarrow> 0 | Some n \<Rightarrow> n)
      in map (\<lambda>e. (EDGE_DIR ! e, c0 + cornerOff g (EDGE_CACHE_CORNER ! e)))
             (filter (\<lambda>e. bits AND push_bit e 1 \<noteq> 0) [0 ..< 12]))"

definition sweep :: "Grid \<Rightarrow> Tables \<Rightarrow> nat list \<Rightarrow> (nat \<times> nat) list" where
  "sweep g T solidField =
     concat (map (\<lambda>z. concat (map (\<lambda>y. concat (map (\<lambda>x.
         activeEdges g T solidField (x + y * np g + z * np2 g))
       [0 ..< res g])) [0 ..< res g])) [0 ..< res g])"

definition vertexOf :: "Grid \<Rightarrow> nat list \<Rightarrow> nat \<times> nat \<Rightarrow> real list" where
  "vertexOf g solidField e =
     (case edgePosition g solidField (fst e) (snd e) of (wx, wy, wz) \<Rightarrow> [wx, wy, wz])"

text \<open>The invariant of the walk for the order: the positions are the vertices of the edges met
  so far, each once and in the order of its first occurrence, and a cache entry is set
  exactly for the edges met. The grid constants fit together.\<close>

definition sweepInv :: "Grid \<Rightarrow> nat list \<Rightarrow> (nat \<times> nat) list \<Rightarrow> mc_state \<Rightarrow> bool" where
  "sweepInv g solidField ks st =
     (positions st = concat (map (vertexOf g solidField) (uniq ks))
      \<and> length (caches st) = 3
      \<and> (\<forall>d < 3. length (caches st ! d) = total g
            \<and> (\<forall>k < total g. (0 \<le> caches st ! d ! k) = ((d, k) \<in> set ks))))"

definition gridOk :: "Grid \<Rightarrow> bool" where
  "gridOk g = (np g = res g + 1 \<and> np2 g = np g * np g \<and> total g = np g * np g * np g)"

section \<open>Example inputs\<close>

text \<open>An encoder for the examples: the binary32 patterns of \<open>1\<close> and of \<open>NaN\<close>; every other
  number is given the pattern of \<open>0\<close>.\<close>

definition f32_example :: "jsnum \<Rightarrow> 32 word" where
  "f32_example x = (case x of NaN \<Rightarrow> 0x7FC00000 | Num r \<Rightarrow> if r = 1 then 0x3F800000 else 0)"

text \<open>A mesh of one triangle in the plane \<open>z = 0\<close>, and a mesh without triangles.\<close>

definition triangleMesh :: MeshData where
  "triangleMesh = \<lparr> vertices = [Num 0, Num 0, Num 0, Num 1, Num 0, Num 0, Num 0, Num 1, Num 0],
                    normals = [Num 0, Num 0, Num 1, Num 0, Num 0, Num 1, Num 0, Num 0, Num 1],
                    indices = Some [0, 1, 2] \<rparr>"

definition emptyMesh :: MeshData where
  "emptyMesh = \<lparr> vertices = [], normals = [], indices = Some [] \<rparr>"

text \<open>The parameter record that \<open>App.tsx\<close> starts with.\<close>

definition appParams :: GenParams where
  "appParams = \<lparr> size_p = Num 100, cellSize = Num 25, wallThickness = 35 / 100,
                  useFrame = Some False, shellThickness = 3, frameBeamWidth = Some 10,
                  resolution = Num 60, smoothingIterations = Some 8,
                  makeManifold = Some False \<rparr>"

text \<open>Tables in the shape that the specification describes, with the rows that the examples
  use: the eight cube indices with exactly one solid corner, where the three edges at that
  corner carry one triangle. Every other row is empty, as the rows of the cube indices
  \<open>0\<close> and \<open>255\<close> are in the standard tables.\<close>

definition EDGE_TABLE_corner :: "nat list" where
  "EDGE_TABLE_corner = (replicate 256 0)
     [254 := 0x109, 253 := 0x203, 251 := 0x406, 247 := 0x80c,
      239 := 0x190, 223 := 0x230, 191 := 0x460, 127 := 0x8c0]"

definition TRI_TABLE_corner :: "int list" where
  "TRI_TABLE_corner = (replicate 4096 (- 1))
     [254 * 16 := 0, 254 * 16 + 1 := 3, 254 * 16 + 2 := 8,
      253 * 16 := 0, 253 * 16 + 1 := 9, 253 * 16 + 2 := 1,
      251 * 16 := 1, 251 * 16 + 1 := 10, 251 * 16 + 2 := 2,
      247 * 16 := 2, 247 * 16 + 1 := 3, 247 * 16 + 2 := 11,
      239 * 16 := 4, 239 * 16 + 1 := 8, 239 * 16 + 2 := 7,
      223 * 16 := 9, 223 * 16 + 1 := 4, 223 * 16 + 2 := 5,
      191 * 16 := 10, 191 * 16 + 1 := 5, 191 * 16 + 2 := 6,
      127 * 16 := 7, 127 * 16 + 1 := 11, 127 * 16 + 2 := 6]"

definition cornerTables :: Tables where
  "cornerTables = \<lparr> EDGE_TABLE = EDGE_TABLE_corner, TRI_TABLE = TRI_TABLE_corner \<rparr>"

text \<open>The field of the grid with three points per axis in which only the centre is solid.\<close>

definition centreField :: "nat list" where
  "centreField = (replicate 27 0)[13 := 1]"

section \<open>Properties of the STL export\<close>

declare stlLoop.simps [simp del]

lemma length_le32 [simp]: "length (le32 w) = 4"
  by (simp add: le32_def)

lemma length_le16 [simp]: "length (le16 w) = 2"
  by (simp add: le16_def)

lemma writeAll_contig:
  "contig off ws \<Longrightarrow> off + length (concat (map snd ws)) \<le> length buf \<Longrightarrow>
   writeAll ws buf
     = Inr (take off buf @ concat (map snd ws) @ drop (off + length (concat (map snd ws))) buf)"
proof (induction ws arbitrary: off buf)
  case Nil
  then show ?case by simp
next
  case (Cons w ws)
  obtain o' bs where w: "w = (o', bs)" by (cases w)
  from Cons.prems w have o': "o' = off" and c: "contig (off + length bs) ws" by auto
  let ?buf' = "take off buf @ bs @ drop (off + length bs) buf"
  from Cons.prems w have fit: "off + length bs + length (concat (map snd ws)) \<le> length buf"
    by simp
  then have sb: "setBytes buf off bs = Inr ?buf'" by (simp add: setBytes_def)
  have len: "length ?buf' = length buf" using fit by simp
  have "writeAll ws ?buf' = Inr (take (off + length bs) ?buf' @ concat (map snd ws)
           @ drop (off + length bs + length (concat (map snd ws))) ?buf')"
    using Cons.IH[OF c, of ?buf'] fit len by simp
  moreover have "take (off + length bs) ?buf' = take off buf @ bs" using fit by simp
  moreover have "drop (off + length bs + length (concat (map snd ws))) ?buf'
        = drop (off + length bs + length (concat (map snd ws))) buf"
    using fit by (simp add: add.commute add.left_commute)
  ultimately show ?case using w o' sb by (simp add: add.assoc)
qed

lemma triWrites_contig: "contig offset (triWrites f32 vs idx f offset)"
  by (simp add: triWrites_def Let_def split: prod.splits)

lemma triWrites_bytes: "concat (map snd (triWrites f32 vs idx f offset)) = stlRecord f32 vs idx f"
  by (simp add: triWrites_def stlRecord_def Let_def le16_def split: prod.splits)

lemma length_stlRecord [simp]: "length (stlRecord f32 vs idx f) = 50"
  by (simp add: stlRecord_def Let_def)

lemma stlLoop_layout:
  "3 dvd length idx \<Longrightarrow> f \<le> length idx div 3 \<Longrightarrow> length pre = 84 + 50 * f \<Longrightarrow>
   stlLoop f32 vs idx f (84 + 50 * f) (pre @ replicate (50 * (length idx div 3 - f)) 0)
     = Inr (pre @ concat (map (stlRecord f32 vs idx) [f ..< length idx div 3]))"
proof (induction "length idx div 3 - f" arbitrary: f pre)
  case 0
  then have "f = length idx div 3" by simp
  with 0 have "\<not> f * 3 < length idx" by auto
  then show ?case using \<open>f = length idx div 3\<close> by (subst stlLoop.simps) simp
next
  case (Suc k)
  let ?n = "length idx div 3"
  from Suc have lt: "f < ?n" by simp
  with Suc.prems have cond: "f * 3 < length idx" by auto
  let ?off = "84 + 50 * f"
  let ?buf = "pre @ replicate (50 * (?n - f)) (0::byte)"
  let ?rec = "stlRecord f32 vs idx f"
  have rep: "replicate (50 * (?n - f)) (0::byte)
      = replicate 50 0 @ replicate (50 * (?n - (f + 1))) 0"
  proof -
    have "50 * (?n - f) = 50 + 50 * (?n - (f + 1))" using lt by simp
    then show ?thesis by (simp add: replicate_add)
  qed
  have fit: "?off + 50 \<le> length ?buf" using Suc.prems lt by simp
  have w: "writeAll (triWrites f32 vs idx f ?off) ?buf
           = Inr (take ?off ?buf @ ?rec @ drop (?off + 50) ?buf)"
    using writeAll_contig[OF triWrites_contig,
        where buf = ?buf and ?f32.1 = f32 and ?vs1 = vs and ?idx1 = idx and ?f1 = f] fit
    by (simp add: triWrites_bytes)
  have tk: "take ?off ?buf = pre" using Suc.prems by simp
  have dr: "drop (?off + 50) ?buf = replicate (50 * (?n - (f + 1))) 0"
    using Suc.prems by (simp add: rep)
  have k: "k = ?n - (f + 1)" using Suc.hyps by simp
  have le: "f + 1 \<le> ?n" using lt by simp
  have len: "length (pre @ ?rec) = 84 + 50 * (f + 1)" using Suc.prems by simp
  have ih: "stlLoop f32 vs idx (f + 1) (84 + 50 * (f + 1))
              ((pre @ ?rec) @ replicate (50 * (?n - (f + 1))) 0)
        = Inr ((pre @ ?rec) @ concat (map (stlRecord f32 vs idx) [f + 1 ..< ?n]))"
    using Suc.hyps(1)[OF k Suc.prems(1) le len] .
  have off: "84 + 50 * (f + 1) = ?off + 50" by simp
  have "stlLoop f32 vs idx f ?off ?buf
      = stlLoop f32 vs idx (f + 1) (?off + 50) (pre @ ?rec @ replicate (50 * (?n - (f + 1))) 0)"
    by (subst stlLoop.simps) (simp only: cond w tk dr if_True sum.case)
  also have "\<dots> = Inr ((pre @ ?rec) @ concat (map (stlRecord f32 vs idx) [f + 1 ..< ?n]))"
    using ih off by simp
  also have "\<dots> = Inr (pre @ concat (map (stlRecord f32 vs idx) [f ..< ?n]))"
    using lt by (simp add: upt_conv_Cons)
  finally show ?case .
qed

lemma length_concat_records:
  "length (concat (map (stlRecord f32 vs idx) [a ..< b])) = 50 * (b - a)"
proof -
  have "length (concat (map (stlRecord f32 vs idx) xs)) = 50 * length xs" for xs
    by (induction xs) simp_all
  then show ?thesis by simp
qed

lemma length_stlFile: "length (stlFile f32 vs idx) = 84 + 50 * (length idx div 3)"
  by (simp add: stlFile_def length_concat_records)

lemma exportToSTL_download:
  assumes "indices data = Some idx" and "idx \<noteq> []" and "3 dvd length idx"
  shows "exportToSTL f32 data filename
           = Inr (Download filename (stlFile f32 (vertices data) idx))"
proof -
  let ?n = "length idx div 3"
  have len: "length idx = 3 * ?n" using assms(3) by auto
  have "(length idx * 50) div 3 = (3 * (?n * 50)) div 3" using len by simp
  then have bl: "(length idx * 50) div 3 = 50 * ?n" by simp
  let ?pre = "replicate 80 (0::byte) @ le32 (word_of_nat ?n)"
  have sb: "setBytes (replicate (84 + 50 * ?n) 0) 80 (le32 (word_of_nat ?n))
        = Inr (?pre @ replicate (50 * (?n - 0)) 0)"
    by (simp add: setBytes_def replicate_add)
  have lp: "stlLoop f32 (vertices data) idx 0 (84 + 50 * 0) (?pre @ replicate (50 * (?n - 0)) 0)
      = Inr (?pre @ concat (map (stlRecord f32 (vertices data) idx) [0 ..< ?n]))"
    by (rule stlLoop_layout[OF assms(3)]) simp_all
  have "exportToSTL f32 data filename =
     (case setBytes (replicate (84 + 50 * ?n) 0) 80 (le32 (word_of_nat ?n)) of
        Inl e \<Rightarrow> Inl e
      | Inr view \<Rightarrow>
          (case stlLoop f32 (vertices data) idx 0 84 view of
             Inl e \<Rightarrow> Inl e
           | Inr bytes \<Rightarrow> Inr (Download filename bytes)))"
    using assms(1,2) by (simp add: exportToSTL_def Let_def bl)
  also have "\<dots> = Inr (Download filename (stlFile f32 (vertices data) idx))"
    unfolding sb using lp by (simp add: stlFile_def)
  finally show ?thesis .
qed

lemma concat_block:
  "\<forall>x \<in> set xss. length x = k \<Longrightarrow> i < length xss \<Longrightarrow>
   take k (drop (k * i) (concat xss)) = xss ! i"
proof (induction xss arbitrary: i)
  case Nil
  then show ?case by simp
next
  case (Cons x xss)
  show ?case
  proof (cases i)
    case 0
    with Cons.prems show ?thesis by simp
  next
    case (Suc j)
    with Cons.prems have "take k (drop (k * j) (concat xss)) = xss ! j"
      by (intro Cons.IH) auto
    moreover have "length x = k" using Cons.prems by simp
    ultimately show ?thesis using Suc by simp
  qed
qed

lemma stlFile_record:
  assumes "f < length idx div 3"
  shows "take 50 (drop (84 + 50 * f) (stlFile f32 vs idx)) = stlRecord f32 vs idx f"
proof -
  let ?recs = "map (stlRecord f32 vs idx) [0 ..< length idx div 3]"
  have "drop (84 + 50 * f) (stlFile f32 vs idx) = drop (50 * f) (concat ?recs)"
    by (simp add: stlFile_def)
  moreover have "take 50 (drop (50 * f) (concat ?recs)) = ?recs ! f"
    by (rule concat_block) (use assms in auto)
  ultimately show ?thesis using assms by simp
qed

lemma stlRecord_attribute: "drop 48 (stlRecord f32 vs idx f) = [0, 0]"
  by (simp add: stlRecord_def Let_def)

text \<open>
  Claim C2, as amended. For a mesh whose index array is not empty and has a length that is
  a multiple of three, the export downloads exactly the binary STL file of the layout in
  the specification: eighty zero bytes, the triangle count as a little-endian 32-bit
  number, and one fifty-byte record per triangle (the face normal, the three corners and a
  zero attribute count). The file has \<open>84 + 50 * triangleCount\<close> bytes.
\<close>

theorem exportToSTL_layout:
  assumes "indices data = Some idx" and "idx \<noteq> []" and "3 dvd length idx"
  shows "exportToSTL f32 data filename
           = Inr (Download filename (stlFile f32 (vertices data) idx))
         \<and> length (stlFile f32 (vertices data) idx) = 84 + 50 * (length idx div 3)
         \<and> take 80 (stlFile f32 (vertices data) idx) = replicate 80 0
         \<and> take 4 (drop 80 (stlFile f32 (vertices data) idx))
             = le32 (word_of_nat (length idx div 3))
         \<and> (\<forall>f < length idx div 3.
               take 50 (drop (84 + 50 * f) (stlFile f32 (vertices data) idx))
                 = stlRecord f32 (vertices data) idx f
               \<and> length (stlRecord f32 (vertices data) idx f) = 50
               \<and> drop 48 (stlRecord f32 (vertices data) idx f) = [0, 0])"
proof (intro conjI allI impI)
  show "exportToSTL f32 data filename
          = Inr (Download filename (stlFile f32 (vertices data) idx))"
    using assms by (rule exportToSTL_download)
  show "length (stlFile f32 (vertices data) idx) = 84 + 50 * (length idx div 3)"
    by (rule length_stlFile)
  show "take 80 (stlFile f32 (vertices data) idx) = replicate 80 0"
    by (simp add: stlFile_def)
  show "take 4 (drop 80 (stlFile f32 (vertices data) idx))
          = le32 (word_of_nat (length idx div 3))"
    by (simp add: stlFile_def)
next
  fix f assume "f < length idx div 3"
  then show "take 50 (drop (84 + 50 * f) (stlFile f32 (vertices data) idx))
          = stlRecord f32 (vertices data) idx f"
    by (rule stlFile_record)
next
  fix f
  show "length (stlRecord f32 (vertices data) idx f) = 50" by simp
  show "drop 48 (stlRecord f32 (vertices data) idx f) = [0, 0]"
    by (rule stlRecord_attribute)
qed

theorem exportToSTL_layout_witness:
  "indices triangleMesh = Some [0, 1, 2] \<and> [0, 1, 2] \<noteq> ([] :: nat list)
   \<and> 3 dvd length [0 :: nat, 1, 2]
   \<and> exportToSTL f32_example triangleMesh ''gyroid.stl''
       = Inr (Download ''gyroid.stl'' (stlFile f32_example (vertices triangleMesh) [0, 1, 2]))
   \<and> length (stlFile f32_example (vertices triangleMesh) [0, 1, 2]) = 134
   \<and> stlRecord f32_example (vertices triangleMesh) [0, 1, 2] 0
       = [0, 0, 0, 0,  0, 0, 0, 0,  0, 0, 0x80, 0x3F,
          0, 0, 0, 0,  0, 0, 0, 0,  0, 0, 0, 0,
          0, 0, 0x80, 0x3F,  0, 0, 0, 0,  0, 0, 0, 0,
          0, 0, 0, 0,  0, 0, 0x80, 0x3F,  0, 0, 0, 0,
          0, 0]"
proof -
  have i: "indices triangleMesh = Some [0, 1, 2]" by (simp add: triangleMesh_def)
  have n: "[0, 1, 2] \<noteq> ([] :: nat list)" by simp
  have d: "3 dvd length [0 :: nat, 1, 2]" by (simp add: numeral_3_eq_3)
  have r: "stlRecord f32_example (vertices triangleMesh) [0, 1, 2] 0
       = [0, 0, 0, 0,  0, 0, 0, 0,  0, 0, 0x80, 0x3F,
          0, 0, 0, 0,  0, 0, 0, 0,  0, 0, 0, 0,
          0, 0, 0x80, 0x3F,  0, 0, 0, 0,  0, 0, 0, 0,
          0, 0, 0, 0,  0, 0, 0x80, 0x3F,  0, 0, 0, 0,
          0, 0]"
    by (simp add: stlRecord_def faceNormal_def idxAt_def coord_def triangleMesh_def
        f32_example_def le32_def Let_def)
  note t = exportToSTL_layout[OF i n d, of f32_example "''gyroid.stl''"]
  from t have e: "exportToSTL f32_example triangleMesh ''gyroid.stl''
       = Inr (Download ''gyroid.stl'' (stlFile f32_example (vertices triangleMesh) [0, 1, 2]))"
    by (rule conjunct1)
  from t have l: "length (stlFile f32_example (vertices triangleMesh) [0, 1, 2]) = 134"
    by simp
  show ?thesis by (intro conjI i n d e l r)
qed

text \<open>
  Claim C2 as stated fails for a mesh without triangles: no file of 84 bytes is produced,
  the export produces nothing.
\<close>

theorem exportToSTL_empty_counterexample:
  "exportToSTL f32_example emptyMesh ''gyroid.stl'' = Inr NoOutput
   \<and> exportToSTL f32_example emptyMesh ''gyroid.stl''
       \<noteq> Inr (Download ''gyroid.stl'' (stlFile f32_example (vertices emptyMesh) []))"
  by (simp add: exportToSTL_def emptyMesh_def)

text \<open>
  Claim C10. When the index array of the mesh is absent or empty, the export returns at
  once: no buffer is built and nothing is downloaded, in particular not the file of 84
  bytes that has no triangle.
\<close>

theorem exportToSTL_no_triangles:
  "exportToSTL f32 (data\<lparr>indices := None\<rparr>) filename = Inr NoOutput
   \<and> exportToSTL f32 (data\<lparr>indices := Some []\<rparr>) filename = Inr NoOutput
   \<and> exportToSTL f32 (data\<lparr>indices := Some []\<rparr>) filename
       \<noteq> Inr (Download filename (stlFile f32 (vertices data) []))"
  by (simp add: exportToSTL_def)

section \<open>Properties of the parameters and of the field\<close>

lemma validate_None:
  "validate p = None \<longleftrightarrow>
     (\<exists>sz cs rs. size_p p = Num sz \<and> cellSize p = Num cs \<and> resolution p = Num rs
        \<and> 0 < sz \<and> 0 < cs \<and> 0 < rs)"
  by (cases "size_p p"; cases "cellSize p"; cases "resolution p")
     (auto simp: validate_def falsy_def jle0_def)

lemma validate_Some: "validate p = Some e \<Longrightarrow> \<exists>msg. e = Error msg"
  by (auto simp: validate_def split: if_splits)



text \<open>
  Claim C6. In frame mode a voxel is structural exactly when it is within the beam width of
  at least two of the three pairs of opposite cube faces; a voxel with \<open>|x|\<close>, \<open>|y|\<close> and
  \<open>|z|\<close> all below \<open>half - bw\<close> is not structural, and it is solid only where the gyroid
  wall is.
\<close>

theorem frame_openness:
  "structural g True bw st mm x y z cA cB
     = (2 \<le> length (filter (\<lambda>c. \<bar>c\<bar> \<ge> half g - bw) [x, y, z]))
   \<and> (\<bar>x\<bar> < half g - bw \<and> \<bar>y\<bar> < half g - bw \<and> \<bar>z\<bar> < half g - bw
        \<longrightarrow> \<not> structural g True bw st mm x y z cA cB)
   \<and> (useFrame_d p \<and> gridPoint g idx = (xi, yi, zi)
        \<and> \<bar>mmCoords g xi\<bar> < half g - frameBeamWidth_d p
        \<and> \<bar>mmCoords g yi\<bar> < half g - frameBeamWidth_d p
        \<and> \<bar>mmCoords g zi\<bar> < half g - frameBeamWidth_d p
        \<longrightarrow> voxel g p idx = (if \<bar>gyroidG g xi yi zi\<bar> \<le> wallThickness p then 1 else 0))"
  by (auto simp: structural_def voxel_def Let_def)

theorem frame_openness_witness:
  "structural (grid 100 25 4) True 10 3 False 50 50 0 False False
   \<and> structural (grid 100 25 4) True 10 3 False 45 (- 40) 0 False False
   \<and> \<not> structural (grid 100 25 4) True 10 3 False 50 0 0 False False
   \<and> \<not> structural (grid 100 25 4) True 10 3 False 39 (- 39) 39 False False
   \<and> useFrame_d (appParams\<lparr>useFrame := Some True\<rparr>)
   \<and> gridPoint (grid 100 25 4) 62 = (2, 2, 2)
   \<and> \<bar>mmCoords (grid 100 25 4) 2\<bar> < half (grid 100 25 4) - frameBeamWidth_d (appParams\<lparr>useFrame := Some True\<rparr>)
   \<and> voxel (grid 100 25 4) (appParams\<lparr>useFrame := Some True\<rparr>) 62 = 1"
proof -
  let ?g = "grid 100 25 4"
  let ?p = "appParams\<lparr>useFrame := Some True\<rparr>"
  have h: "half ?g = 50" by (simp add: grid_def Let_def)
  have s: "structural ?g True 10 3 False 50 50 0 False False
   \<and> structural ?g True 10 3 False 45 (- 40) 0 False False
   \<and> \<not> structural ?g True 10 3 False 50 0 0 False False
   \<and> \<not> structural ?g True 10 3 False 39 (- 39) 39 False False"
    using frame_openness[of ?g 10 3 False 50 50 0 False False]
      frame_openness[of ?g 10 3 False 45 "- 40" 0 False False]
      frame_openness[of ?g 10 3 False 50 0 0 False False]
      frame_openness[of ?g 10 3 False 39 "- 39" 39 False False]
    by (simp add: h)
  have u: "useFrame_d ?p" by (simp add: useFrame_d_def)
  have gp: "gridPoint ?g 62 = (2, 2, 2)" by (simp add: gridPoint_def grid_def Let_def)
  have mm: "mmCoords ?g 2 = 0" by (simp add: mmCoords_def grid_def Let_def)
  have bw: "frameBeamWidth_d ?p = 10" by (simp add: frameBeamWidth_d_def appParams_def)
  have G: "gyroidG ?g 2 2 2 = 0" by (simp add: gyroidG_def sinRad_def radCoords_def mm)
  have w: "wallThickness ?p = 35 / 100" by (simp add: appParams_def)
  have m: "\<bar>mmCoords ?g 2\<bar> < half ?g - frameBeamWidth_d ?p" by (simp add: mm h bw)
  have "voxel ?g ?p 62 = (if \<bar>gyroidG ?g 2 2 2\<bar> \<le> wallThickness ?p then 1 else 0)"
    using frame_openness[of ?g 10 3 False 0 0 0 False False ?p 62 2 2 2] u gp m by blast
  then have v: "voxel ?g ?p 62 = 1" by (simp add: G w)
  show ?thesis using s u gp m v by blast
qed

lemma buildField_smoothing:
  "buildField g (p\<lparr>smoothingIterations := s\<rparr>) = buildField g p"
  by (simp add: buildField_def voxel_def useFrame_d_def frameBeamWidth_d_def makeManifold_d_def)

lemma useFrame_d_smoothing: "useFrame_d (p\<lparr>smoothingIterations := s\<rparr>) = useFrame_d p"
  by (simp add: useFrame_d_def)

lemma smoothingIterations_d_update:
  "smoothingIterations_d (p\<lparr>smoothingIterations := s\<rparr>) = (case s of None \<Rightarrow> 10 | Some n \<Rightarrow> n)"
  by (simp add: smoothingIterations_d_def)

lemma validate_smoothing: "validate (p\<lparr>smoothingIterations := s\<rparr>) = validate p"
  by (simp add: validate_def)

text \<open>
  Claim C9 as stated fails: with the smoothing iterations left out of the parameter record,
  the run smooths ten times, not eight.
\<close>

theorem smoothing_default_counterexample:
  "smoothingIterations_d (appParams\<lparr>smoothingIterations := None\<rparr>) = 10
   \<and> smoothingIterations_d (appParams\<lparr>smoothingIterations := None\<rparr>) \<noteq> 8"
  by (simp add: smoothingIterations_d_def)

text \<open>
  Claim C9, as amended. With the smoothing iterations left out of the parameter record the
  run is the run with ten iterations; the other defaults of the destructuring are frame
  mode off, a beam width of ten and no sealing of the ports. Eight iterations, together
  with size 100, cell size 25, wall threshold 0.35, shell mode, shell thickness 3, beam
  width 10, resolution 60 and unsealed ports, is what the application passes at its start.
\<close>

theorem smoothing_default:
  "generateGyroidMesh T (p\<lparr>smoothingIterations := None\<rparr>)
     = generateGyroidMesh T (p\<lparr>smoothingIterations := Some 10\<rparr>)
   \<and> smoothingIterations_d (p\<lparr>smoothingIterations := None\<rparr>) = 10
   \<and> useFrame_d (p\<lparr>useFrame := None\<rparr>) = False
   \<and> frameBeamWidth_d (p\<lparr>frameBeamWidth := None\<rparr>) = 10
   \<and> makeManifold_d (p\<lparr>makeManifold := None\<rparr>) = False
   \<and> smoothingIterations_d appParams = 8
   \<and> appParams = \<lparr> size_p = Num 100, cellSize = Num 25, wallThickness = 35 / 100,
                    useFrame = Some False, shellThickness = 3, frameBeamWidth = Some 10,
                    resolution = Num 60, smoothingIterations = Some 8,
                    makeManifold = Some False \<rparr>"
proof -
  have "pipeline T (p\<lparr>smoothingIterations := None\<rparr>) sz cs rs
      = pipeline T (p\<lparr>smoothingIterations := Some 10\<rparr>) sz cs rs" for sz cs rs
    unfolding pipeline_def buildField_smoothing useFrame_d_smoothing
      smoothingIterations_d_update option.case by (rule refl)
  then have "generateGyroidMesh T (p\<lparr>smoothingIterations := None\<rparr>)
     = generateGyroidMesh T (p\<lparr>smoothingIterations := Some 10\<rparr>)"
    by (simp add: generateGyroidMesh_def validate_smoothing split: option.splits)
  then show ?thesis
    by (simp add: smoothingIterations_d_def useFrame_d_def frameBeamWidth_d_def
        makeManifold_d_def appParams_def)
qed

section \<open>Properties of the Taubin smoothing\<close>

declare adjLoop.simps [simp del]

lemma rowsBelow_replicate: "rowsBelow n (replicate n [])"
  by (simp add: rowsBelow_def)

lemma rowsBelow_update:
  "rowsBelow n t \<Longrightarrow> i < n \<Longrightarrow> \<forall>x \<in> set r. x < n \<Longrightarrow> rowsBelow n (t[i := t ! i @ r])"
proof -
  assume rb: "rowsBelow n t" and i: "i < n" and r: "\<forall>x \<in> set r. x < n"
  from rb i have "t ! i \<in> set t" by (simp add: rowsBelow_def)
  with rb have "\<forall>x \<in> set (t ! i). x < n" by (simp add: rowsBelow_def)
  with r have new: "\<forall>x \<in> set (t ! i @ r). x < n" by auto
  have "set (t[i := t ! i @ r]) \<subseteq> insert (t ! i @ r) (set t)"
    by (rule set_update_subset_insert)
  with rb new show ?thesis by (auto simp: rowsBelow_def)
qed

lemma adjFace_InrD:
  assumes "adjFace n idx f t = Inr t'"
  shows "f * 3 + 2 < length idx"
    and "idx ! (f * 3) < n" and "idx ! (f * 3 + 1) < n" and "idx ! (f * 3 + 2) < n"
    and "t' = pushPairs (idx ! (f * 3)) (idx ! (f * 3 + 1)) (idx ! (f * 3 + 2)) t"
  using assms
  by (auto simp: adjFace_def idxAt_def Let_def pushPairs_def split: if_splits)

lemma adjFace_rowsBelow:
  assumes "adjFace n idx f t = Inr t'" and "rowsBelow n t"
  shows "rowsBelow n t'"
  unfolding adjFace_InrD(5)[OF assms(1)] pushPairs_def Let_def
  using adjFace_InrD(2-4)[OF assms(1)] assms(2)
  by (intro rowsBelow_update) auto


lemma adjLoop_rowsBelow:
  "adjLoop n idx f t = Inr t' \<Longrightarrow> rowsBelow n t \<Longrightarrow> rowsBelow n t'"
proof (induction n idx f t rule: adjLoop.induct)
  case (1 n idx f t)
  show ?case
  proof (cases "f * 3 < length idx")
    case True
    with "1.prems"(1) obtain t1 where a: "adjFace n idx f t = Inr t1"
      and l: "adjLoop n idx (f + 1) t1 = Inr t'"
      by (subst (asm) adjLoop.simps) (auto split: sum.splits)
    from "1.IH"[OF True a l] adjFace_rowsBelow[OF a "1.prems"(2)] show ?thesis by simp
  next
    case False
    with "1.prems" show ?thesis by (subst (asm) adjLoop.simps) simp
  qed
qed


lemma adjLoop_not_Error: "adjLoop n idx f t \<noteq> Inl (Error msg)"
proof (induction n idx f t rule: adjLoop.induct)
  case (1 n idx f t)
  show ?case
  proof (cases "f * 3 < length idx")
    case True
    have "adjFace n idx f t \<noteq> Inl (Error msg)"
      by (auto simp: adjFace_def Let_def split: option.splits)
    with True "1.IH" show ?thesis
      by (subst adjLoop.simps) (auto split: sum.splits)
  next
    case False
    then show ?thesis by (subst adjLoop.simps) simp
  qed
qed

lemma adjFace_succeeds:
  assumes "3 dvd length idx" and "\<forall>i \<in> set idx. i < n" and "f * 3 < length idx"
  shows "\<exists>t'. adjFace n idx f t = Inr t'"
proof -
  from assms(1,3) have "f * 3 + 2 < length idx" by (auto elim!: dvdE)
  then have "f * 3 < length idx" "f * 3 + 1 < length idx" "f * 3 + 2 < length idx" by simp_all
  with assms(2) show ?thesis
    by (simp add: adjFace_def idxAt_def Let_def)
qed

lemma adjLoop_succeeds:
  "3 dvd length idx \<Longrightarrow> \<forall>i \<in> set idx. i < n \<Longrightarrow> \<exists>t'. adjLoop n idx f t = Inr t'"
proof (induction n idx f t rule: adjLoop.induct)
  case (1 n idx f t)
  show ?case
  proof (cases "f * 3 < length idx")
    case True
    from adjFace_succeeds[OF "1.prems" True] obtain t1 where a: "adjFace n idx f t = Inr t1"
      by blast
    from "1.IH"[OF True a "1.prems"] obtain t' where "adjLoop n idx (f + 1) t1 = Inr t'"
      by blast
    with True a show ?thesis by (subst adjLoop.simps) simp
  next
    case False
    then show ?thesis by (subst adjLoop.simps) simp
  qed
qed


subsection \<open>The compressed rows\<close>

lemma set_uniq_aux:
  "set (fold (\<lambda>x acc. if x \<in> set acc then acc else acc @ [x]) xs acc) = set xs \<union> set acc"
  by (induction xs arbitrary: acc) auto

lemma set_uniq [simp]: "set (uniq xs) = set xs"
  by (simp add: uniq_def set_uniq_aux)

lemma uniq_Nil [simp]: "uniq [] = []"
  by (simp add: uniq_def)

lemma csrRows_Suc: "csrRows adjTemp (Suc k) = csrRows adjTemp k @ uniq (adjTemp ! k)"
  by (simp add: csrRows_def)

lemma length_csrRows_mono: "j \<le> k \<Longrightarrow> length (csrRows adjTemp j) \<le> length (csrRows adjTemp k)"
  by (induction k) (auto simp: csrRows_Suc le_Suc_eq)

lemma csr_fold:
  "k \<le> N \<Longrightarrow>
   fold (\<lambda>v (off, lst). (off[v := length lst], lst @ uniq (adjTemp ! v))) [0 ..< k]
        (replicate (N + 1) 0, []) = (off, lst) \<Longrightarrow>
   lst = csrRows adjTemp k \<and> length off = N + 1 \<and> (\<forall>v < k. off ! v = length (csrRows adjTemp v))"
proof (induction k arbitrary: off lst)
  case 0
  then show ?case by (auto simp: csrRows_def)
next
  case (Suc k)
  obtain off0 lst0 where f0:
    "fold (\<lambda>v (off, lst). (off[v := length lst], lst @ uniq (adjTemp ! v))) [0 ..< k]
        (replicate (N + 1) 0, []) = (off0, lst0)"
    by (cases "fold (\<lambda>v (off, lst). (off[v := length lst], lst @ uniq (adjTemp ! v))) [0 ..< k]
        (replicate (N + 1) 0, [])")
  from Suc.prems(1) have kN: "k \<le> N" by simp
  note ih = Suc.IH[OF kN f0]
  from Suc.prems(2) f0 have off: "off = off0[k := length lst0]"
    and lst: "lst = lst0 @ uniq (adjTemp ! k)" by simp_all
  show ?case
  proof (intro conjI allI impI)
    show "lst = csrRows adjTemp (Suc k)" using lst ih by (simp add: csrRows_Suc)
    show "length off = N + 1" using off ih by simp
  next
    fix v assume "v < Suc k"
    then show "off ! v = length (csrRows adjTemp v)"
      using off ih Suc.prems(1) by (cases "v = k") (auto simp: less_Suc_eq)
  qed
qed

lemma buildCSR_rows:
  assumes "buildCSR N adjTemp = (adjOffset, adj)"
  shows "adj = csrRows adjTemp N" and "\<forall>v \<le> N. adjOffset ! v = length (csrRows adjTemp v)"
proof -
  obtain off lst where f:
    "fold (\<lambda>v (off, lst). (off[v := length lst], lst @ uniq (adjTemp ! v))) [0 ..< N]
        (replicate (N + 1) 0, []) = (off, lst)"
    by (cases "fold (\<lambda>v (off, lst). (off[v := length lst], lst @ uniq (adjTemp ! v))) [0 ..< N]
        (replicate (N + 1) 0, [])")
  note c = csr_fold[OF le_refl f]
  from assms have "(off[N := length lst], lst) = (adjOffset, adj)"
    unfolding buildCSR_def f by auto
  then have ao: "adjOffset = off[N := length lst]" and a: "adj = lst" by auto
  show "adj = csrRows adjTemp N" using a c by simp
  show "\<forall>v \<le> N. adjOffset ! v = length (csrRows adjTemp v)"
  proof (intro allI impI)
    fix v assume "v \<le> N"
    then show "adjOffset ! v = length (csrRows adjTemp v)"
      using ao c by (cases "v = N") auto
  qed
qed

lemma map_nth_append_middle:
  "map ((!) (xs @ ys @ zs)) [length xs ..< length xs + length ys] = ys"
proof (rule nth_equalityI)
  show "length (map ((!) (xs @ ys @ zs)) [length xs ..< length xs + length ys]) = length ys"
    by simp
next
  fix i assume "i < length (map ((!) (xs @ ys @ zs)) [length xs ..< length xs + length ys])"
  then have i: "i < length ys" by simp
  then have "map ((!) (xs @ ys @ zs)) [length xs ..< length xs + length ys] ! i
      = (xs @ ys @ zs) ! (length xs + i)" by simp
  also have "\<dots> = (ys @ zs) ! i" by (rule nth_append_length_plus)
  also have "\<dots> = ys ! i" using i by (simp add: nth_append)
  finally show "map ((!) (xs @ ys @ zs)) [length xs ..< length xs + length ys] ! i = ys ! i" .
qed

lemma csrRows_split:
  "v < N \<Longrightarrow> \<exists>zs. csrRows adjTemp N = csrRows adjTemp v @ uniq (adjTemp ! v) @ zs"
proof (induction N)
  case 0
  then show ?case by simp
next
  case (Suc N)
  show ?case
  proof (cases "v = N")
    case True
    then show ?thesis by (simp add: csrRows_Suc)
  next
    case False
    with Suc.prems have "v < N" by simp
    from Suc.IH[OF this] obtain zs where
      "csrRows adjTemp N = csrRows adjTemp v @ uniq (adjTemp ! v) @ zs" by blast
    then show ?thesis by (simp add: csrRows_Suc)
  qed
qed

lemma buildCSR_nbrs:
  assumes "buildCSR N adjTemp = (adjOffset, adj)" and "v < N"
  shows "nbrs adjOffset adj v = uniq (adjTemp ! v)"
    and "adjOffset ! (v + 1) - adjOffset ! v = length (uniq (adjTemp ! v))"
proof -
  note r = buildCSR_rows[OF assms(1)]
  from assms(2) r(2) have o1: "adjOffset ! v = length (csrRows adjTemp v)"
    and o2: "adjOffset ! (v + 1) = length (csrRows adjTemp v) + length (uniq (adjTemp ! v))"
    by (simp_all add: csrRows_Suc)
  from csrRows_split[OF assms(2)] obtain zs where
    sp: "csrRows adjTemp N = csrRows adjTemp v @ uniq (adjTemp ! v) @ zs" by blast
  show "nbrs adjOffset adj v = uniq (adjTemp ! v)"
    unfolding nbrs_def o1 o2 r(1) sp by (rule map_nth_append_middle)
  show "adjOffset ! (v + 1) - adjOffset ! v = length (uniq (adjTemp ! v))"
    using o1 o2 by simp
qed


subsection \<open>Vertices in a plane\<close>

lemma fold_sum: "fold (\<lambda>j s. s + g j) js (s0 :: real) = s0 + sum_list (map g js)"
  by (induction js arbitrary: s0) (simp_all add: add.assoc)

lemma smoothVertex_alt:
  "smoothVertex adjOffset adj factor temp v result =
     (if adjOffset ! (v + 1) - adjOffset ! v = 0 then result
      else result[v * 3 := temp ! (v * 3) + factor *
                    (sum_list (map (\<lambda>n. temp ! (n * 3)) (nbrs adjOffset adj v))
                       * (1 / real (adjOffset ! (v + 1) - adjOffset ! v)) - temp ! (v * 3)),
                  v * 3 + 1 := temp ! (v * 3 + 1) + factor *
                    (sum_list (map (\<lambda>n. temp ! (n * 3 + 1)) (nbrs adjOffset adj v))
                       * (1 / real (adjOffset ! (v + 1) - adjOffset ! v)) - temp ! (v * 3 + 1)),
                  v * 3 + 2 := temp ! (v * 3 + 2) + factor *
                    (sum_list (map (\<lambda>n. temp ! (n * 3 + 2)) (nbrs adjOffset adj v))
                       * (1 / real (adjOffset ! (v + 1) - adjOffset ! v)) - temp ! (v * 3 + 2))])"
  by (simp add: smoothVertex_def Let_def fold_sum nbrs_def comp_def)

lemma index3_neq: "u \<noteq> v \<Longrightarrow> i < 3 \<Longrightarrow> j < 3 \<Longrightarrow> u * 3 + i \<noteq> v * 3 + (j :: nat)"
  by presburger

lemma nth_update3_other:
  assumes "u \<noteq> v" and "i < 3"
  shows "(ps[v * 3 := X, v * 3 + 1 := Y, v * 3 + 2 := Z]) ! (u * 3 + i) = ps ! (u * 3 + i)"
proof -
  have "u * 3 + i \<noteq> v * 3 + 0" "u * 3 + i \<noteq> v * 3 + 1" "u * 3 + i \<noteq> v * 3 + 2"
    using assms by (intro index3_neq; simp)+
  then show ?thesis by simp
qed

lemma nth_update3_same:
  assumes "v * 3 + 2 < length ps"
  shows "(ps[v * 3 := X, v * 3 + 1 := Y, v * 3 + 2 := Z]) ! (v * 3) = X"
    and "(ps[v * 3 := X, v * 3 + 1 := Y, v * 3 + 2 := Z]) ! (v * 3 + 1) = Y"
    and "(ps[v * 3 := X, v * 3 + 1 := Y, v * 3 + 2 := Z]) ! (v * 3 + 2) = Z"
  using assms by simp_all

lemma plane_sum:
  "\<forall>n \<in> set ns. planeEq a b c d temp n \<Longrightarrow>
   a * sum_list (map (\<lambda>n. temp ! (n * 3)) ns)
   + b * sum_list (map (\<lambda>n. temp ! (n * 3 + 1)) ns)
   + c * sum_list (map (\<lambda>n. temp ! (n * 3 + 2)) ns) = real (length ns) * d"
  by (induction ns) (auto simp: planeEq_def algebra_simps)

lemma affine_plane:
  fixes a b c d k :: real
  assumes t: "a * tx + b * ty + c * tz = d"
    and s: "a * sx + b * sy + c * sz = real m * d" and m: "m \<noteq> 0"
  shows "a * (tx + k * (sx * (1 / real m) - tx)) + b * (ty + k * (sy * (1 / real m) - ty))
         + c * (tz + k * (sz * (1 / real m) - tz)) = d"
proof -
  have "a * (tx + k * (sx * (1 / real m) - tx)) + b * (ty + k * (sy * (1 / real m) - ty))
         + c * (tz + k * (sz * (1 / real m) - tz))
      = (a * tx + b * ty + c * tz) + k * ((a * sx + b * sy + c * sz) * (1 / real m)
          - (a * tx + b * ty + c * tz))"
    by (simp add: algebra_simps)
  also have "\<dots> = d + k * (real m * d * (1 / real m) - d)" by (simp only: t s)
  also have "\<dots> = d" using m by simp
  finally show ?thesis .
qed

lemma onPlane_planeInv: "onPlane a b c d ps \<longleftrightarrow> planeInv a b c d (length ps div 3) ps"
proof -
  have "length ps mod 3 = 0 \<longleftrightarrow> length ps = length ps div 3 * 3" by presburger
  then show ?thesis by (auto simp: onPlane_def planeInv_def)
qed

lemma smoothVertex_plane:
  assumes temp: "planeInv a b c d N temp" and res: "planeInv a b c d N result"
    and v: "v < N"
    and cnt: "adjOffset ! (v + 1) - adjOffset ! v = length (nbrs adjOffset adj v)"
    and ns: "\<forall>n \<in> set (nbrs adjOffset adj v). n < N"
  shows "planeInv a b c d N (smoothVertex adjOffset adj factor temp v result)"
proof (cases "adjOffset ! (v + 1) - adjOffset ! v = 0")
  case True
  then show ?thesis using res by (simp add: smoothVertex_alt)
next
  case False
  let ?ns = "nbrs adjOffset adj v"
  let ?m = "adjOffset ! (v + 1) - adjOffset ! v"
  let ?X = "temp ! (v * 3) + factor * (sum_list (map (\<lambda>n. temp ! (n * 3)) ?ns) * (1 / real ?m) - temp ! (v * 3))"
  let ?Y = "temp ! (v * 3 + 1) + factor * (sum_list (map (\<lambda>n. temp ! (n * 3 + 1)) ?ns) * (1 / real ?m) - temp ! (v * 3 + 1))"
  let ?Z = "temp ! (v * 3 + 2) + factor * (sum_list (map (\<lambda>n. temp ! (n * 3 + 2)) ?ns) * (1 / real ?m) - temp ! (v * 3 + 2))"
  let ?r = "result[v * 3 := ?X, v * 3 + 1 := ?Y, v * 3 + 2 := ?Z]"
  have eq: "smoothVertex adjOffset adj factor temp v result = ?r"
    using False by (simp add: smoothVertex_alt)
  have len: "v * 3 + 2 < length result" using res v by (simp add: planeInv_def)
  have "\<forall>n \<in> set ?ns. planeEq a b c d temp n" using ns temp by (simp add: planeInv_def)
  from plane_sum[OF this] cnt have s:
    "a * sum_list (map (\<lambda>n. temp ! (n * 3)) ?ns) + b * sum_list (map (\<lambda>n. temp ! (n * 3 + 1)) ?ns)
     + c * sum_list (map (\<lambda>n. temp ! (n * 3 + 2)) ?ns) = real ?m * d" by simp
  have t: "a * temp ! (v * 3) + b * temp ! (v * 3 + 1) + c * temp ! (v * 3 + 2) = d"
    using temp v by (simp add: planeInv_def planeEq_def)
  have new: "a * ?X + b * ?Y + c * ?Z = d" by (rule affine_plane[OF t s False])
  have "planeEq a b c d ?r u" if "u < N" for u
  proof (cases "u = v")
    case True
    then show ?thesis
      unfolding planeEq_def using nth_update3_same[OF len] new by simp
  next
    case False
    have "?r ! (u * 3) = result ! (u * 3)"
      using nth_update3_other[OF False, of 0] by simp
    moreover have "?r ! (u * 3 + 1) = result ! (u * 3 + 1)"
      using nth_update3_other[OF False, of 1] by simp
    moreover have "?r ! (u * 3 + 2) = result ! (u * 3 + 2)"
      using nth_update3_other[OF False, of 2] by simp
    ultimately show ?thesis using res that by (simp add: planeInv_def planeEq_def)
  qed
  moreover have "length ?r = N * 3" using res by (simp add: planeInv_def)
  ultimately show ?thesis unfolding eq planeInv_def by simp
qed


lemma smoothVertex_length [simp]:
  "length (smoothVertex adjOffset adj factor temp v result) = length result"
  by (simp add: smoothVertex_alt)



lemma fold_smoothVertex_plane:
  "\<forall>v \<in> set vs. v < N \<Longrightarrow> csrOk N adjOffset adj \<Longrightarrow> planeInv a b c d N temp \<Longrightarrow>
   planeInv a b c d N result \<Longrightarrow>
   planeInv a b c d N (fold (smoothVertex adjOffset adj factor temp) vs result)"
proof (induction vs arbitrary: result)
  case Nil
  then show ?case by simp
next
  case (Cons v vs)
  from Cons.prems have v: "v < N" by simp
  with Cons.prems(2) have
    "adjOffset ! (v + 1) - adjOffset ! v = length (nbrs adjOffset adj v)"
    "\<forall>n \<in> set (nbrs adjOffset adj v). n < N" by (simp_all add: csrOk_def)
  from smoothVertex_plane[OF Cons.prems(3,4) v this]
  have "planeInv a b c d N (smoothVertex adjOffset adj factor temp v result)" .
  with Cons show ?case by simp
qed

lemma halfStep_plane:
  "csrOk N adjOffset adj \<Longrightarrow> planeInv a b c d N result \<Longrightarrow>
   planeInv a b c d N (halfStep N adjOffset adj iter result)"
  unfolding halfStep_def Let_def by (rule fold_smoothVertex_plane) simp_all

lemma fold_halfStep_plane:
  "csrOk N adjOffset adj \<Longrightarrow> planeInv a b c d N ps \<Longrightarrow>
   planeInv a b c d N (fold (halfStep N adjOffset adj) iters ps)"
  by (induction iters arbitrary: ps) (simp_all add: halfStep_plane)

lemma fold_smoothVertex_length [simp]:
  "length (fold (smoothVertex adjOffset adj factor temp) vs result) = length result"
  by (induction vs arbitrary: result) simp_all

lemma halfStep_length [simp]: "length (halfStep N adjOffset adj iter result) = length result"
  by (simp add: halfStep_def Let_def)

lemma fold_halfStep_length [simp]:
  "length (fold (halfStep N adjOffset adj) iters ps) = length ps"
  by (induction iters arbitrary: ps) simp_all




lemma buildCSR_csrOk:
  assumes "buildCSR N adjTemp = (adjOffset, adj)" and "rowsBelow N adjTemp"
  shows "csrOk N adjOffset adj"
  unfolding csrOk_def
proof (intro allI impI conjI)
  fix v assume v: "v < N"
  note n = buildCSR_nbrs[OF assms(1) v]
  show "adjOffset ! (v + 1) - adjOffset ! v = length (nbrs adjOffset adj v)"
    using n by simp
  from assms(2) v have "adjTemp ! v \<in> set adjTemp" by (simp add: rowsBelow_def)
  with assms(2) have "\<forall>x \<in> set (adjTemp ! v). x < N" by (simp add: rowsBelow_def)
  then show "\<forall>n \<in> set (nbrs adjOffset adj v). n < N" using n(1) by simp
qed

lemma taubinSmooth_InrD:
  assumes "taubinSmooth pos idx iterations = Inr out"
  shows "out = pos \<or>
     (length pos mod 3 = 0 \<and>
      (\<exists>adjTemp adjOffset adj.
         adjLoop (length pos div 3) idx 0 (replicate (length pos div 3) []) = Inr adjTemp
         \<and> buildCSR (length pos div 3) adjTemp = (adjOffset, adj)
         \<and> out = fold (halfStep (length pos div 3) adjOffset adj)
                       [0 ..< nat \<lceil>iterations * 2\<rceil>] pos))"
  using assms
  by (auto simp: taubinSmooth_def Let_def split: if_splits sum.splits prod.splits)

lemma taubinSmooth_length:
  "taubinSmooth pos idx iterations = Inr out \<Longrightarrow> length out = length pos"
  by (drule taubinSmooth_InrD) auto

lemma taubinSmooth_not_Error: "taubinSmooth pos idx iterations \<noteq> Inl (Error msg)"
  using adjLoop_not_Error
  by (auto simp: taubinSmooth_def Let_def split: if_splits sum.splits prod.splits)

lemma taubinSmooth_plane:
  assumes "taubinSmooth pos idx iterations = Inr out" and "onPlane a b c d pos"
  shows "onPlane a b c d out"
proof -
  from taubinSmooth_InrD[OF assms(1)] show ?thesis
  proof
    assume "out = pos"
    with assms(2) show ?thesis by simp
  next
    let ?N = "length pos div 3"
    assume "length pos mod 3 = 0 \<and>
      (\<exists>adjTemp adjOffset adj.
         adjLoop ?N idx 0 (replicate ?N []) = Inr adjTemp
         \<and> buildCSR ?N adjTemp = (adjOffset, adj)
         \<and> out = fold (halfStep ?N adjOffset adj) [0 ..< nat \<lceil>iterations * 2\<rceil>] pos)"
    then obtain adjTemp adjOffset adj where
      al: "adjLoop ?N idx 0 (replicate ?N []) = Inr adjTemp"
      and csr: "buildCSR ?N adjTemp = (adjOffset, adj)"
      and out: "out = fold (halfStep ?N adjOffset adj) [0 ..< nat \<lceil>iterations * 2\<rceil>] pos"
      by blast
    from adjLoop_rowsBelow[OF al rowsBelow_replicate] have "rowsBelow ?N adjTemp" .
    from buildCSR_csrOk[OF csr this] have ok: "csrOk ?N adjOffset adj" .
    from assms(2) have "planeInv a b c d ?N pos" by (simp add: onPlane_planeInv)
    from fold_halfStep_plane[OF ok this] have "planeInv a b c d ?N out" unfolding out .
    moreover have "length out = length pos" unfolding out by simp
    ultimately show ?thesis by (simp add: onPlane_planeInv)
  qed
qed


lemma taubinSmooth_succeeds:
  assumes "3 dvd length idx" and "\<forall>i \<in> set idx. i < length pos div 3"
    and "length pos mod 3 = 0"
  shows "\<exists>out. taubinSmooth pos idx iterations = Inr out"
proof -
  from adjLoop_succeeds[OF assms(1,2)] obtain t where
    "adjLoop (length pos div 3) idx 0 (replicate (length pos div 3) []) = Inr t" by blast
  then show ?thesis using assms(3)
    by (auto simp: taubinSmooth_def Let_def split: prod.splits)
qed

lemma onPlaneI:
  "length ps = N * 3 \<Longrightarrow> (\<And>v. v < N \<Longrightarrow> planeEq a b c d ps v) \<Longrightarrow> onPlane a b c d ps"
  by (simp add: onPlane_def)

lemma triangle_onPlane: "onPlane 0 0 1 0 [0, 0, 0, 1, 0, 0, 0, 1, 0]"
proof (rule onPlaneI[where N = 3])
  show "length [0, 0, 0, 1, 0, 0, 0, 1, 0 :: real] = 3 * 3" by simp
next
  fix v :: nat assume "v < 3"
  then have "v = 0 \<or> v = 1 \<or> v = 2" by auto
  then show "planeEq 0 0 1 0 [0, 0, 0, 1, 0, 0, 0, 1, 0] v"
    by (auto simp: planeEq_def)
qed

lemma triangle_smoothed:
  "taubinSmooth [0, 0, 0, 1, 0, 0, 0, 1, 0] [0, 1, 2] 1
     = Inr [147 / 800, 147 / 800, 0, 253 / 400, 147 / 800, 0, 147 / 800, 253 / 400, 0]"
  by code_simp

text \<open>
  Claim C7 as stated fails. The three vertices of the triangle lie in the plane \<open>z = 0\<close>;
  one smoothing pass moves the first of them from the origin to \<open>(0.18375, 0.18375, 0)\<close>.
\<close>

theorem taubin_flat_counterexample:
  "onPlane 0 0 1 0 [0, 0, 0, 1, 0, 0, 0, 1, 0]
   \<and> taubinSmooth [0, 0, 0, 1, 0, 0, 0, 1, 0] [0, 1, 2] 1
       = Inr [147 / 800, 147 / 800, 0, 253 / 400, 147 / 800, 0, 147 / 800, 253 / 400, 0]
   \<and> \<bar>147 / 800 - 0\<bar> > (1 / 10 :: real)"
  using triangle_onPlane triangle_smoothed by simp

text \<open>
  Claim C7, as amended. For every mesh whose vertices all lie in one plane, any number of
  Taubin smoothing passes leaves every vertex in that plane: no vertex is moved off the
  plane, while it can move within it. The number of positions stays the same.
\<close>

theorem taubin_keeps_plane:
  assumes "taubinSmooth pos idx iterations = Inr out" and "onPlane a b c d pos"
  shows "onPlane a b c d out \<and> length out = length pos"
  using taubinSmooth_plane[OF assms] taubinSmooth_length[OF assms(1)] by simp

theorem taubin_keeps_plane_witness:
  "taubinSmooth [0, 0, 0, 1, 0, 0, 0, 1, 0] [0, 1, 2] 1
       = Inr [147 / 800, 147 / 800, 0, 253 / 400, 147 / 800, 0, 147 / 800, 253 / 400, 0]
   \<and> onPlane 0 0 1 0 [0, 0, 0, 1, 0, 0, 0, 1, 0]
   \<and> onPlane 0 0 1 0 [147 / 800, 147 / 800, 0, 253 / 400, 147 / 800, 0, 147 / 800, 253 / 400, 0]"
  using taubin_keeps_plane[OF triangle_smoothed triangle_onPlane]
    triangle_smoothed triangle_onPlane by blast

section \<open>Properties of the marching cubes\<close>

lemma faceOk_mono: "faceOk n v \<Longrightarrow> n \<le> m \<Longrightarrow> faceOk m v"
  by (auto simp: faceOk_def split: option.splits)

lemma EDGE_DIR_less: "e < 12 \<Longrightarrow> EDGE_DIR ! e < 3"
proof -
  assume "e < 12"
  then have "EDGE_DIR ! e \<in> set EDGE_DIR" by (intro nth_mem) (simp add: EDGE_DIR_def)
  then show ?thesis by (auto simp: EDGE_DIR_def)
qed

lemma getEdgeVertex_cases:
  "(\<exists>d k. d = EDGE_DIR ! e \<and> k < length (caches st ! d) \<and> 0 \<le> caches st ! d ! k
       \<and> getEdgeVertex g sf e c0 st = (caches st ! d ! k, st))
   \<or> (\<exists>d k wx wy wz. d = EDGE_DIR ! e \<and>
         getEdgeVertex g sf e c0 st
           = (int (length (positions st) div 3),
              st\<lparr> positions := positions st @ [wx, wy, wz],
                  caches := (caches st)[d := (caches st ! d)[k := int (length (positions st) div 3)]] \<rparr>))"
proof -
  let ?d = "EDGE_DIR ! e"
  let ?k = "c0 + cornerOff g (EDGE_CACHE_CORNER ! e)"
  show ?thesis
  proof (cases "case cacheAt (caches st ! ?d) ?k of Some cached \<Rightarrow> cached \<ge> 0 | None \<Rightarrow> False")
    case True
    then have "?k < length (caches st ! ?d)" "0 \<le> caches st ! ?d ! ?k"
      by (auto simp: cacheAt_def split: if_splits)
    moreover from True have "getEdgeVertex g sf e c0 st = (caches st ! ?d ! ?k, st)"
      by (simp add: getEdgeVertex_def Let_def)
    ultimately show ?thesis by blast
  next
    case False
    obtain wx wy wz where w: "edgePosition g sf ?d ?k = (wx, wy, wz)"
      by (cases "edgePosition g sf ?d ?k") auto
    from False have "getEdgeVertex g sf e c0 st
           = (int (length (positions st) div 3),
              st\<lparr> positions := positions st @ [wx, wy, wz],
                  caches := (caches st)[?d := (caches st ! ?d)[?k := int (length (positions st) div 3)]] \<rparr>)"
      by (simp add: getEdgeVertex_def Let_def w)
    then show ?thesis by blast
  qed
qed

lemma div3_append3: "length ps mod 3 = 0 \<Longrightarrow> length (ps @ [x, y, z]) div 3 = length ps div 3 + 1"
  by simp

lemma getEdgeVertex_inv:
  assumes "mcInv st" and "e < 12" and "getEdgeVertex g sf e c0 st = (v, st')"
  shows "mcInv st' \<and> 0 \<le> v \<and> v < int (nverts st') \<and> nverts st \<le> nverts st'
         \<and> faceIndices st' = faceIndices st"
proof -
  from getEdgeVertex_cases[of e st g sf c0] show ?thesis
  proof (elim disjE exE conjE)
    fix d k
    assume d: "d = EDGE_DIR ! e" and k: "k < length (caches st ! d)" and nn: "0 \<le> caches st ! d ! k"
      and eq: "getEdgeVertex g sf e c0 st = (caches st ! d ! k, st)"
    from d assms(2) have "d < 3" by (simp add: EDGE_DIR_less)
    with assms(1) have "caches st ! d \<in> set (caches st)" by (simp add: mcInv_def)
    with k assms(1) have "caches st ! d ! k < int (nverts st)" by (auto simp: mcInv_def)
    with eq assms nn show ?thesis by simp
  next
    fix d k wx wy wz
    let ?n = "length (positions st) div 3"
    let ?st = "st\<lparr> positions := positions st @ [wx, wy, wz],
                  caches := (caches st)[d := (caches st ! d)[k := int ?n]] \<rparr>"
    assume d: "d = EDGE_DIR ! e"
      and eq: "getEdgeVertex g sf e c0 st = (int ?n, ?st)"
    from assms(1) have m3: "length (positions st) mod 3 = 0" by (simp add: mcInv_def)
    have nv: "nverts ?st = nverts st + 1" using div3_append3[OF m3] by (simp add: nverts_def)
    from d assms(2) have d3: "d < 3" by (simp add: EDGE_DIR_less)
    with assms(1) have cd: "caches st ! d \<in> set (caches st)" by (simp add: mcInv_def)
    from assms(1) have old: "x < int (nverts st)" if "c \<in> set (caches st)" "x \<in> set c" for c x
      using that by (simp add: mcInv_def)
    have c1: "\<forall>x \<in> set ((caches st ! d)[k := int ?n]). x < int (nverts ?st)"
    proof
      fix x assume "x \<in> set ((caches st ! d)[k := int ?n])"
      then have "x = int ?n \<or> x \<in> set (caches st ! d)"
        using set_update_subset_insert[of "caches st ! d" k "int ?n"] by auto
      then show "x < int (nverts ?st)"
      proof
        assume "x = int ?n"
        then show ?thesis using nv by (simp add: nverts_def)
      next
        assume "x \<in> set (caches st ! d)"
        from old[OF cd this] show ?thesis using nv by simp
      qed
    qed
    have c2: "\<forall>c \<in> set (caches ?st). \<forall>x \<in> set c. x < int (nverts ?st)"
    proof
      fix c assume "c \<in> set (caches ?st)"
      then have "c = (caches st ! d)[k := int ?n] \<or> c \<in> set (caches st)"
        using set_update_subset_insert[of "caches st" d "(caches st ! d)[k := int ?n]"] by auto
      then show "\<forall>x \<in> set c. x < int (nverts ?st)"
      proof
        assume "c = (caches st ! d)[k := int ?n]"
        with c1 show ?thesis by simp
      next
        assume c: "c \<in> set (caches st)"
        show ?thesis
        proof
          fix x assume "x \<in> set c"
          from old[OF c this] show "x < int (nverts ?st)" using nv by simp
        qed
      qed
    qed
    have f: "\<forall>v \<in> set (faceIndices ?st). faceOk (nverts ?st) v"
    proof
      fix v assume "v \<in> set (faceIndices ?st)"
      with assms(1) have "faceOk (nverts st) v" by (simp add: mcInv_def)
      from faceOk_mono[OF this, of "nverts ?st"] show "faceOk (nverts ?st) v" using nv by simp
    qed
    have l3: "length (positions ?st) mod 3 = 0" using m3 by simp
    have lc: "length (caches ?st) = 3" using assms(1) by (simp add: mcInv_def)
    have lf: "length (faceIndices ?st) mod 3 = 0" using assms(1) by (simp add: mcInv_def)
    have "mcInv ?st"
      unfolding mcInv_def using l3 lc c2 lf f by blast
    moreover have "v = int ?n" "st' = ?st" using eq assms(3) by simp_all
    ultimately show ?thesis using nv by (simp add: nverts_def)
  qed
qed


lemma fold_invariant:
  "(\<And>x s. x \<in> set xs \<Longrightarrow> P s \<Longrightarrow> P (f x s)) \<Longrightarrow> P s \<Longrightarrow> P (fold f xs s)"
  by (induction xs arbitrary: s) simp_all

lemma or_bit_less:
  fixes a :: nat
  assumes "a < 2 ^ 8" and "c < 8"
  shows "a OR push_bit c 1 < 2 ^ 8"
proof -
  have "(2 :: nat) ^ c < 2 ^ 8" using assms(2) by (intro power_strict_increasing) simp_all
  then have "take_bit 8 (push_bit c (1 :: nat)) = push_bit c 1"
    using assms(2) by (simp add: take_bit_nat_eq_self_iff push_bit_eq_mult)
  moreover have "take_bit 8 a = a" using assms(1) by (simp add: take_bit_nat_eq_self_iff)
  ultimately have "take_bit 8 (a OR push_bit c 1) = a OR push_bit c 1" by simp
  then show ?thesis by (simp only: take_bit_nat_eq_self_iff)
qed

lemma cubeIndexOf_less: "cubeIndexOf g sf c0 < 256"
  unfolding cubeIndexOf_def
proof (rule fold_invariant[where P = "\<lambda>ci. ci < (256 :: nat)"])
  show "(0 :: nat) < 256" by simp
next
  fix c ci :: nat
  assume "c \<in> set [0 ..< 8]" and "ci < 256"
  then have "ci OR push_bit c 1 < 2 ^ 8" by (intro or_bit_less) simp_all
  then have "ci OR push_bit c 1 < 256" by simp
  with \<open>ci < 256\<close>
  show "(if solidAt sf (c0 + cornerOff g c) = Some 0 then ci OR push_bit c 1 else ci) < 256"
    by (simp only: split: if_split) blast
qed

lemma resolveEdges_inv:
  assumes "mcInv st" and "resolveEdges g sf edges c0 st = (ev, st')"
  shows "mcInv st' \<and> length ev = 12 \<and> (\<forall>x \<in> set ev. x < int (nverts st'))"
proof -
  let ?f = "\<lambda>e (ev, s).
             if edges AND push_bit e 1 \<noteq> 0
             then (let (v, s') = getEdgeVertex g sf e c0 s in (ev[e := v], s'))
             else (ev, s)"
  have "evInv (fold ?f [0 ..< 12] (replicate 12 (- 1), st))"
  proof (rule fold_invariant[where P = evInv])
    show "evInv (replicate 12 (- 1), st)"
      using assms(1) by (auto simp: evInv_def)
  next
    fix e :: nat and es :: "int list \<times> mc_state"
    assume e: "e \<in> set [0 ..< 12]" and inv: "evInv es"
    obtain ev0 s where es: "es = (ev0, s)" by (cases es)
    from inv es have s: "mcInv s" and l: "length ev0 = 12"
      and b: "\<forall>x \<in> set ev0. x < int (nverts s)" by (simp_all add: evInv_def)
    show "evInv (?f e es)"
    proof (cases "edges AND push_bit e 1 \<noteq> 0")
      case False
      then show ?thesis using inv es by simp
    next
      case True
      obtain v s' where gv: "getEdgeVertex g sf e c0 s = (v, s')"
        by (cases "getEdgeVertex g sf e c0 s")
      from e have "e < 12" by simp
      from getEdgeVertex_inv[OF s this gv]
      have s': "mcInv s'" and v: "v < int (nverts s')" and mono: "nverts s \<le> nverts s'"
        by simp_all
      have "\<forall>x \<in> set (ev0[e := v]). x < int (nverts s')"
      proof
        fix x assume "x \<in> set (ev0[e := v])"
        then have "x = v \<or> x \<in> set ev0"
          using set_update_subset_insert[of ev0 e v] by auto
        then show "x < int (nverts s')" using v b mono by auto
      qed
      then show ?thesis using True es gv s' l by (simp add: evInv_def)
    qed
  qed
  then show ?thesis using assms(2) by (simp add: resolveEdges_def evInv_def)
qed

lemma evAt_faceOk:
  assumes "\<forall>x \<in> set ev. x < int n" and "\<not> negative (evAt ev e)" and "0 < n"
  shows "faceOk n (evAt ev e)"
proof (cases "evAt ev e")
  case None
  then show ?thesis using assms(3) by (simp add: faceOk_def)
next
  case (Some x)
  then have "x \<in> set ev" by (auto simp: evAt_def split: option.splits if_splits)
  with assms(1) have "x < int n" by simp
  moreover from Some assms(2) have "0 \<le> x" by (simp add: negative_def)
  ultimately show ?thesis using Some by (simp add: faceOk_def)
qed

lemma emitTriangles_inv:
  assumes T: "tablesOk T" and ev: "length ev = 12" "\<forall>x \<in> set ev. x < int n"
    and tb: "\<forall>t \<in> set ts. tBase + t < 4096"
  shows "length faces mod 3 = 0 \<Longrightarrow> \<forall>v \<in> set faces. faceOk n v \<Longrightarrow>
         length (emitTriangles T tBase ev ts faces) mod 3 = 0
         \<and> (\<forall>v \<in> set (emitTriangles T tBase ev ts faces). faceOk n v)"
  using tb
proof (induction ts arbitrary: faces)
  case Nil
  then show ?case by simp
next
  case (Cons t ts)
  let ?e1 = "triEntry T (tBase + t)"
  let ?e2 = "triEntry T (tBase + t + 1)"
  let ?e3 = "triEntry T (tBase + t + 2)"
  from Cons.prems(3) have tl: "\<forall>t \<in> set ts. tBase + t < 4096" and hd: "tBase + t < 4096"
    by simp_all
  show ?case
  proof (cases "?e1 = Some (- 1)")
    case True
    then show ?thesis using Cons.prems by simp
  next
    case False
    show ?thesis
    proof (cases "negative (evAt ev ?e1) \<or> negative (evAt ev ?e2) \<or> negative (evAt ev ?e3)")
      case True
      with False show ?thesis using Cons.IH[OF Cons.prems(1,2) tl] by (simp add: Let_def)
    next
      case nneg: False
      from T hd have "TRI_TABLE T ! (tBase + t) \<in> set (TRI_TABLE T)"
        by (simp add: tablesOk_def)
      with T have rng: "- 1 \<le> TRI_TABLE T ! (tBase + t)" "TRI_TABLE T ! (tBase + t) < 12"
        by (simp_all add: tablesOk_def)
      from T hd have e1: "?e1 = Some (TRI_TABLE T ! (tBase + t))"
        by (simp add: triEntry_def tablesOk_def)
      with False have "TRI_TABLE T ! (tBase + t) \<noteq> - 1" by simp
      with rng have k: "0 \<le> TRI_TABLE T ! (tBase + t)" "nat (TRI_TABLE T ! (tBase + t)) < 12"
        by simp_all
      then have ev1: "evAt ev ?e1 = Some (ev ! nat (TRI_TABLE T ! (tBase + t)))"
        using ev(1) e1 by (simp add: evAt_def)
      from k ev(1) have "ev ! nat (TRI_TABLE T ! (tBase + t)) \<in> set ev" by simp
      with ev(2) have "ev ! nat (TRI_TABLE T ! (tBase + t)) < int n" by simp
      moreover from nneg ev1 have "0 \<le> ev ! nat (TRI_TABLE T ! (tBase + t))"
        by (simp add: negative_def)
      ultimately have n: "0 < n" by simp
      from nneg have "faceOk n (evAt ev ?e1)" "faceOk n (evAt ev ?e2)" "faceOk n (evAt ev ?e3)"
        using evAt_faceOk[OF ev(2) _ n] by simp_all
      with Cons.prems(2) have ok: "\<forall>v \<in> set (faces @ [evAt ev ?e1, evAt ev ?e2, evAt ev ?e3]).
          faceOk n v" by simp
      from Cons.prems(1) have l3: "length (faces @ [evAt ev ?e1, evAt ev ?e2, evAt ev ?e3]) mod 3 = 0"
        by simp
      from Cons.IH[OF l3 ok tl] False nneg show ?thesis by (simp add: Let_def)
    qed
  qed
qed

lemma cube_inv:
  assumes "tablesOk T" and "mcInv st"
  shows "mcInv (cube g T sf x y z st)"
proof -
  let ?c0 = "x + y * np g + z * np2 g"
  let ?ci = "cubeIndexOf g sf ?c0"
  show ?thesis
  proof (cases "edgeEntry T ?ci = Some 0")
    case True
    then show ?thesis using assms(2) by (simp add: cube_def Let_def)
  next
    case False
    obtain ev st1 where r: "resolveEdges g sf (case edgeEntry T ?ci of None \<Rightarrow> 0 | Some n \<Rightarrow> n)
        ?c0 st = (ev, st1)"
      by (cases "resolveEdges g sf (case edgeEntry T ?ci of None \<Rightarrow> 0 | Some n \<Rightarrow> n) ?c0 st")
    from resolveEdges_inv[OF assms(2) r]
    have s1: "mcInv st1" and l: "length ev = 12" and b: "\<forall>x \<in> set ev. x < int (nverts st1)"
      by simp_all
    have "?ci < 256" by (rule cubeIndexOf_less)
    then have "push_bit 4 ?ci + 15 < 4096" by (simp add: push_bit_eq_mult)
    then have tb: "\<forall>t \<in> set [0, 3, 6, 9, 12, 15]. push_bit 4 ?ci + t < 4096" by simp
    from s1 have f3: "length (faceIndices st1) mod 3 = 0"
      and fo: "\<forall>v \<in> set (faceIndices st1). faceOk (nverts st1) v" by (simp_all add: mcInv_def)
    from emitTriangles_inv[OF assms(1) l b tb f3 fo]
    have "length (emitTriangles T (push_bit 4 ?ci) ev [0, 3, 6, 9, 12, 15] (faceIndices st1)) mod 3 = 0"
      and "\<forall>v \<in> set (emitTriangles T (push_bit 4 ?ci) ev [0, 3, 6, 9, 12, 15] (faceIndices st1)).
             faceOk (nverts st1) v" by simp_all
    with s1 have "mcInv (st1\<lparr> faceIndices :=
        emitTriangles T (push_bit 4 ?ci) ev [0, 3, 6, 9, 12, 15] (faceIndices st1) \<rparr>)"
      by (simp add: mcInv_def nverts_def)
    with False r show ?thesis by (simp add: cube_def Let_def)
  qed
qed

lemma mc_init_inv: "mcInv (mc_init g)"
  by (simp add: mcInv_def mc_init_def nverts_def)

lemma marchingCubes_inv:
  assumes "tablesOk T"
  shows "mcInv (marchingCubes g T sf)"
  unfolding marchingCubes_def
  by (intro fold_invariant[where P = mcInv] cube_inv[OF assms] mc_init_inv)

lemma toUint32_less: "faceOk n v \<Longrightarrow> toUint32 v < n"
proof (cases v)
  case None
  assume "faceOk n v"
  with None show ?thesis by (simp add: faceOk_def toUint32_def)
next
  case (Some k)
  assume "faceOk n v"
  with Some have k: "0 \<le> k" "k < int n" by (simp_all add: faceOk_def)
  then have "k mod 2 ^ 32 \<le> k" by (simp add: zmod_le_nonneg_dividend)
  with k have "nat (k mod 2 ^ 32) < n" by simp
  with Some show ?thesis by (simp add: toUint32_def)
qed

lemma marchingCubes_valid:
  assumes "tablesOk T"
  shows "validIndices (length (positions (marchingCubes g T sf)))
           (map toUint32 (faceIndices (marchingCubes g T sf)))"
proof -
  from marchingCubes_inv[OF assms] have inv: "mcInv (marchingCubes g T sf)" .
  then show ?thesis
    by (auto simp: validIndices_def mcInv_def nverts_def intro: toUint32_less)
qed

subsection \<open>The order of the vertices\<close>

lemma uniq_snoc: "uniq (ks @ [x]) = (if x \<in> set ks then uniq ks else uniq ks @ [x])"
proof -
  have "set (uniq ks) = set ks" by (simp add: uniq_def set_uniq_aux)
  then show ?thesis by (simp add: uniq_def)
qed

lemma getEdgeVertex_sweep:
  assumes inv: "sweepInv g sf ks st" and e: "e < 12"
    and k: "c0 + cornerOff g (EDGE_CACHE_CORNER ! e) < total g"
  shows "sweepInv g sf (ks @ [(EDGE_DIR ! e, c0 + cornerOff g (EDGE_CACHE_CORNER ! e))])
           (snd (getEdgeVertex g sf e c0 st))"
proof -
  let ?d = "EDGE_DIR ! e"
  let ?k = "c0 + cornerOff g (EDGE_CACHE_CORNER ! e)"
  from e have d: "?d < 3" by (rule EDGE_DIR_less)
  from inv d have len: "length (caches st ! ?d) = total g" and l3: "length (caches st) = 3"
    and hit: "(0 \<le> caches st ! ?d ! ?k) = ((?d, ?k) \<in> set ks)"
    using k by (simp_all add: sweepInv_def)
  show ?thesis
  proof (cases "(?d, ?k) \<in> set ks")
    case True
    with hit len k have "getEdgeVertex g sf e c0 st = (caches st ! ?d ! ?k, st)"
      by (simp add: getEdgeVertex_def Let_def cacheAt_def)
    moreover have "uniq (ks @ [(?d, ?k)]) = uniq ks" using True by (simp add: uniq_snoc)
    ultimately show ?thesis using inv True by (auto simp: sweepInv_def)
  next
    case False
    obtain wx wy wz where w: "edgePosition g sf ?d ?k = (wx, wy, wz)"
      by (cases "edgePosition g sf ?d ?k") auto
    let ?n = "int (length (positions st) div 3)"
    let ?st = "st\<lparr> positions := positions st @ [wx, wy, wz],
                  caches := (caches st)[?d := (caches st ! ?d)[?k := ?n]] \<rparr>"
    from False hit len k have g: "getEdgeVertex g sf e c0 st = (?n, ?st)"
      by (simp add: getEdgeVertex_def Let_def cacheAt_def w)
    have u: "uniq (ks @ [(?d, ?k)]) = uniq ks @ [(?d, ?k)]" using False by (simp add: uniq_snoc)
    have p: "positions ?st = concat (map (vertexOf g sf) (uniq (ks @ [(?d, ?k)])))"
      using inv by (simp add: u sweepInv_def vertexOf_def w)
    have c: "length (caches ?st ! d') = total g
            \<and> (\<forall>k' < total g. (0 \<le> caches ?st ! d' ! k') = ((d', k') \<in> set (ks @ [(?d, ?k)])))"
      if d': "d' < 3" for d'
    proof (cases "d' = ?d")
      case True
      have "(0 \<le> (caches st ! ?d)[?k := ?n] ! k') = ((?d, k') \<in> set (ks @ [(?d, ?k)]))"
        if "k' < total g" for k'
      proof (cases "k' = ?k")
        case True
        with len k show ?thesis by simp
      next
        case False
        from inv d that have "(0 \<le> caches st ! ?d ! k') = ((?d, k') \<in> set ks)"
          by (simp add: sweepInv_def)
        with False show ?thesis by simp
      qed
      with True d l3 len show ?thesis by simp
    next
      case False
      with inv d' l3 show ?thesis by (simp add: sweepInv_def)
    qed
    have "sweepInv g sf (ks @ [(?d, ?k)]) ?st"
      unfolding sweepInv_def using p c l3 by simp
    with g show ?thesis by simp
  qed
qed


lemma gridOk_grid: "gridOk (grid sz cs rs)"
  by (simp add: gridOk_def grid_def Let_def)

lemma corner_bits: "c < 8 \<Longrightarrow> dX ! c \<le> 1 \<and> dY ! c \<le> 1 \<and> dZ ! c \<le> 1"
proof -
  assume c: "c < 8"
  have "\<forall>x \<in> set dX. x \<le> 1" "\<forall>x \<in> set dY. x \<le> 1" "\<forall>x \<in> set dZ. x \<le> 1"
    by (simp_all add: dX_def dY_def dZ_def)
  moreover from c have "dX ! c \<in> set dX" "dY ! c \<in> set dY" "dZ ! c \<in> set dZ"
    by (intro nth_mem; simp add: dX_def dY_def dZ_def)+
  ultimately show ?thesis by blast
qed

lemma EDGE_CACHE_CORNER_less: "e < 12 \<Longrightarrow> EDGE_CACHE_CORNER ! e < 8"
proof -
  assume "e < 12"
  then have "EDGE_CACHE_CORNER ! e \<in> set EDGE_CACHE_CORNER"
    by (intro nth_mem) (simp add: EDGE_CACHE_CORNER_def)
  then show ?thesis by (auto simp: EDGE_CACHE_CORNER_def)
qed

lemma point_in_grid:
  fixes a b c n :: nat
  assumes "a < n" and "b < n" and "c < n"
  shows "a + b * n + c * (n * n) < n * n * n"
proof -
  have "a + b * n < n * n"
  proof -
    have "a + b * n < n + b * n" using assms(1) by simp
    also have "\<dots> = (b + 1) * n" by simp
    also have "\<dots> \<le> n * n" using assms(2) by (simp add: mult_le_mono1 del: mult_Suc)
    finally show ?thesis .
  qed
  then have "a + b * n + c * (n * n) < n * n + c * (n * n)" by simp
  also have "\<dots> = (c + 1) * (n * n)" by simp
  also have "\<dots> \<le> n * (n * n)" using assms(3) by (intro mult_le_mono1) simp
  finally show ?thesis by (simp add: mult.assoc)
qed

lemma baseIdx_in_grid:
  assumes "gridOk g" and "x < res g" and "y < res g" and "z < res g" and "e < 12"
  shows "x + y * np g + z * np2 g + cornerOff g (EDGE_CACHE_CORNER ! e) < total g"
proof -
  let ?c = "EDGE_CACHE_CORNER ! e"
  from corner_bits[OF EDGE_CACHE_CORNER_less[OF assms(5)]]
  have b: "dX ! ?c \<le> 1" "dY ! ?c \<le> 1" "dZ ! ?c \<le> 1" by simp_all
  from assms(1) have n: "np g = res g + 1" "np2 g = np g * np g" "total g = np g * np g * np g"
    by (simp_all add: gridOk_def)
  have "x + y * np g + z * np2 g + cornerOff g ?c
      = (x + dX ! ?c) + (y + dY ! ?c) * np g + (z + dZ ! ?c) * (np g * np g)"
    by (simp add: cornerOff_def n(2) algebra_simps)
  also have "\<dots> < np g * np g * np g"
    using assms(2-4) b n(1) by (intro point_in_grid) simp_all
  finally show ?thesis using n(3) by simp
qed

lemma resolve_sweep:
  assumes k: "\<forall>e \<in> set es. e < 12 \<and> c0 + cornerOff g (EDGE_CACHE_CORNER ! e) < total g"
  shows "sweepInv g sf ks st \<Longrightarrow>
    sweepInv g sf
      (ks @ map (\<lambda>e. (EDGE_DIR ! e, c0 + cornerOff g (EDGE_CACHE_CORNER ! e)))
                (filter (\<lambda>e. bits AND push_bit e 1 \<noteq> 0) es))
      (snd (fold (\<lambda>e (ev, s).
             if bits AND push_bit e 1 \<noteq> 0
             then (let (v, s') = getEdgeVertex g sf e c0 s in (ev[e := v], s'))
             else (ev, s)) es (ev, st)))"
  using k
proof (induction es arbitrary: ks st ev)
  case Nil
  then show ?case by simp
next
  case (Cons e es)
  from Cons.prems(2) have e: "e < 12" "c0 + cornerOff g (EDGE_CACHE_CORNER ! e) < total g"
    and tl: "\<forall>e \<in> set es. e < 12 \<and> c0 + cornerOff g (EDGE_CACHE_CORNER ! e) < total g"
    by simp_all
  show ?case
  proof (cases "bits AND push_bit e 1 \<noteq> 0")
    case True
    obtain v s' where gv: "getEdgeVertex g sf e c0 st = (v, s')"
      by (cases "getEdgeVertex g sf e c0 st")
    from getEdgeVertex_sweep[OF Cons.prems(1) e] gv
    have "sweepInv g sf (ks @ [(EDGE_DIR ! e, c0 + cornerOff g (EDGE_CACHE_CORNER ! e))]) s'"
      by simp
    from Cons.IH[OF this tl, of "ev[e := v]"] True gv show ?thesis by simp
  next
    case False
    with Cons.IH[OF Cons.prems(1) tl, of ev] show ?thesis by simp
  qed
qed

lemma cube_sweep:
  assumes "gridOk g" and "x < res g" and "y < res g" and "z < res g"
    and "sweepInv g sf ks st"
  shows "sweepInv g sf (ks @ activeEdges g T sf (x + y * np g + z * np2 g))
           (cube g T sf x y z st)"
proof -
  let ?c0 = "x + y * np g + z * np2 g"
  let ?ci = "cubeIndexOf g sf ?c0"
  let ?bits = "case edgeEntry T ?ci of None \<Rightarrow> 0 | Some n \<Rightarrow> n"
  show ?thesis
  proof (cases "edgeEntry T ?ci = Some 0")
    case True
    then have "activeEdges g T sf ?c0 = []" by (simp add: activeEdges_def)
    with True assms(5) show ?thesis by (simp add: cube_def Let_def)
  next
    case False
    have k: "\<forall>e \<in> set [0 ..< 12]. e < 12 \<and> ?c0 + cornerOff g (EDGE_CACHE_CORNER ! e) < total g"
      using baseIdx_in_grid[OF assms(1-4)] by simp
    obtain ev st1 where r: "resolveEdges g sf ?bits ?c0 st = (ev, st1)"
      by (cases "resolveEdges g sf ?bits ?c0 st")
    from resolve_sweep[OF k assms(5), of ?bits "replicate 12 (- 1)"] r
    have "sweepInv g sf (ks @ activeEdges g T sf ?c0) st1"
      by (simp add: resolveEdges_def activeEdges_def Let_def)
    then have "sweepInv g sf (ks @ activeEdges g T sf ?c0)
        (st1\<lparr> faceIndices := emitTriangles T (push_bit 4 ?ci) ev [0, 3, 6, 9, 12, 15]
                                 (faceIndices st1) \<rparr>)"
      by (simp add: sweepInv_def)
    with False r show ?thesis by (simp add: cube_def Let_def)
  qed
qed

lemma fold_sweep:
  "(\<And>x ks st. x \<in> set xs \<Longrightarrow> I ks st \<Longrightarrow> I (ks @ h x) (f x st)) \<Longrightarrow> I ks st \<Longrightarrow>
   I (ks @ concat (map h xs)) (fold f xs st)"
proof (induction xs arbitrary: ks st)
  case Nil
  then show ?case by simp
next
  case (Cons x xs)
  from Cons.prems(1)[of x ks st] Cons.prems(2) have "I (ks @ h x) (f x st)" by simp
  from Cons.IH[OF _ this] Cons.prems(1) have "I ((ks @ h x) @ concat (map h xs)) (fold f xs (f x st))"
    by simp
  then show ?case by simp
qed

lemma mc_init_sweep: "sweepInv g sf [] (mc_init g)"
  by (auto simp: sweepInv_def mc_init_def uniq_def less_Suc_eq numeral_3_eq_3)

lemma marchingCubes_sweep:
  assumes "gridOk g"
  shows "sweepInv g sf (sweep g T sf) (marchingCubes g T sf)"
proof -
  have "sweepInv g sf ([] @ sweep g T sf) (marchingCubes g T sf)"
    unfolding sweep_def marchingCubes_def
  proof (rule fold_sweep[where I = "sweepInv g sf"])
    show "sweepInv g sf [] (mc_init g)" by (rule mc_init_sweep)
  next
    fix z ks st assume z: "z \<in> set [0 ..< res g]" and i: "sweepInv g sf ks st"
    show "sweepInv g sf
        (ks @ concat (map (\<lambda>y. concat (map (\<lambda>x. activeEdges g T sf (x + y * np g + z * np2 g))
               [0 ..< res g])) [0 ..< res g]))
        (fold (\<lambda>y. fold (\<lambda>x. cube g T sf x y z) [0 ..< res g]) [0 ..< res g] st)"
    proof (rule fold_sweep[where I = "sweepInv g sf"])
      show "sweepInv g sf ks st" by (rule i)
    next
      fix y ks' st' assume y: "y \<in> set [0 ..< res g]" and i': "sweepInv g sf ks' st'"
      show "sweepInv g sf
          (ks' @ concat (map (\<lambda>x. activeEdges g T sf (x + y * np g + z * np2 g)) [0 ..< res g]))
          (fold (\<lambda>x. cube g T sf x y z) [0 ..< res g] st')"
      proof (rule fold_sweep[where I = "sweepInv g sf"])
        show "sweepInv g sf ks' st'" by (rule i')
      next
        fix x ks'' st'' assume x: "x \<in> set [0 ..< res g]" and i'': "sweepInv g sf ks'' st''"
        from x y z have "x < res g" "y < res g" "z < res g" by simp_all
        from cube_sweep[OF assms this i'']
        show "sweepInv g sf (ks'' @ activeEdges g T sf (x + y * np g + z * np2 g))
            (cube g T sf x y z st'')" .
      qed
    qed
  qed
  then show ?thesis by simp
qed

lemma marchingCubes_order:
  "positions (marchingCubes (grid sz cs rs) T sf)
     = concat (map (vertexOf (grid sz cs rs) sf) (uniq (sweep (grid sz cs rs) T sf)))"
  using marchingCubes_sweep[OF gridOk_grid] by (simp add: sweepInv_def)

section \<open>Properties of the component extraction\<close>

declare vertFacesLoop.simps [simp del]

lemma vertFacesFace_InrD:
  assumes "vertFacesFace n idx f t = Inr t'"
  shows "cornerOk idx n f"
    and "t' = pushFace (idx ! (f * 3)) (idx ! (f * 3 + 1)) (idx ! (f * 3 + 2)) f t"
  using assms
  by (auto simp: vertFacesFace_def idxAt_def Let_def pushFace_def cornerOk_def split: if_splits)

lemma rows_update_all:
  assumes "\<forall>row \<in> set t. \<forall>x \<in> set row. P x" and "\<forall>x \<in> set r. P x"
  shows "\<forall>row \<in> set (t[i := r]). \<forall>x \<in> set row. P x"
proof
  fix row assume "row \<in> set (t[i := r])"
  then have "row = r \<or> row \<in> set t"
    using set_update_subset_insert[of t i r] by auto
  then show "\<forall>x \<in> set row. P x" using assms by auto
qed

lemma rowsOk_update:
  assumes "rowsOk idx n t" and "i < n" and "cornerOk idx n f"
  shows "rowsOk idx n (t[i := t ! i @ [f]])"
proof -
  from assms(1,2) have "t ! i \<in> set t" by (simp add: rowsOk_def)
  with assms(1) have "\<forall>x \<in> set (t ! i). cornerOk idx n x" by (simp add: rowsOk_def)
  with assms(3) have new: "\<forall>x \<in> set (t ! i @ [f]). cornerOk idx n x" by auto
  from assms(1) have "\<forall>row \<in> set t. \<forall>x \<in> set row. cornerOk idx n x"
    by (simp add: rowsOk_def)
  from rows_update_all[OF this new] assms(1) show ?thesis by (simp add: rowsOk_def)
qed

lemma vertFacesFace_rowsOk:
  assumes "vertFacesFace n idx f t = Inr t'" and "rowsOk idx n t"
  shows "rowsOk idx n t'"
proof -
  note d = vertFacesFace_InrD[OF assms(1)]
  from d(1) have "idx ! (f * 3) < n" "idx ! (f * 3 + 1) < n" "idx ! (f * 3 + 2) < n"
    by (simp_all add: cornerOk_def)
  then show ?thesis unfolding d(2) pushFace_def Let_def
    using assms(2) d(1) by (intro rowsOk_update) auto
qed

lemma vertFacesLoop_rowsOk:
  "vertFacesLoop n idx f t = Inr t' \<Longrightarrow> rowsOk idx n t \<Longrightarrow>
   rowsOk idx n t' \<and> (\<forall>f'. f \<le> f' \<and> f' * 3 < length idx \<longrightarrow> cornerOk idx n f')"
proof (induction n idx f t rule: vertFacesLoop.induct)
  case (1 n idx f t)
  show ?case
  proof (cases "f * 3 < length idx")
    case True
    with "1.prems"(1) obtain t1 where a: "vertFacesFace n idx f t = Inr t1"
      and l: "vertFacesLoop n idx (f + 1) t1 = Inr t'"
      by (subst (asm) vertFacesLoop.simps) (auto split: sum.splits)
    note ih = "1.IH"[OF True a l vertFacesFace_rowsOk[OF a "1.prems"(2)]]
    have "cornerOk idx n f'" if "f \<le> f'" "f' * 3 < length idx" for f'
    proof (cases "f' = f")
      case True
      then show ?thesis using vertFacesFace_InrD(1)[OF a] by simp
    next
      case False
      with that have "f + 1 \<le> f'" by simp
      with ih that show ?thesis by blast
    qed
    with ih show ?thesis by blast
  next
    case False
    with "1.prems" show ?thesis by (subst (asm) vertFacesLoop.simps) auto
  qed
qed

lemma vertFacesLoop_not_Error: "vertFacesLoop n idx f t \<noteq> Inl (Error msg)"
proof (induction n idx f t rule: vertFacesLoop.induct)
  case (1 n idx f t)
  show ?case
  proof (cases "f * 3 < length idx")
    case True
    have "vertFacesFace n idx f t \<noteq> Inl (Error msg)"
      by (auto simp: vertFacesFace_def Let_def split: option.splits)
    with True "1.IH" show ?thesis
      by (subst vertFacesLoop.simps) (auto split: sum.splits)
  next
    case False
    then show ?thesis by (subst vertFacesLoop.simps) simp
  qed
qed

lemma visit_stack:
  "visit nf (visited, stack) = (visited', stack') \<Longrightarrow> set stack' \<subseteq> insert nf (set stack)"
  by (auto simp: visit_def split: if_splits)

lemma fold_visit_stack:
  "fold visit nfs (visited, stack) = (visited', stack') \<Longrightarrow> set stack' \<subseteq> set nfs \<union> set stack"
proof (induction nfs arbitrary: visited stack)
  case Nil
  then show ?case by simp
next
  case (Cons nf nfs)
  obtain v1 s1 where v: "visit nf (visited, stack) = (v1, s1)" by (cases "visit nf (visited, stack)")
  with Cons.prems have "fold visit nfs (v1, s1) = (visited', stack')" by simp
  from Cons.IH[OF this] visit_stack[OF v] show ?case by auto
qed

lemma expand_stack:
  "expand idx vf f ks (visited, stack) = Inr (visited', stack') \<Longrightarrow>
   set stack' \<subseteq> set stack \<union> (\<Union>row \<in> set vf. set row)"
proof (induction ks arbitrary: visited stack)
  case Nil
  then show ?case by auto
next
  case (Cons k ks)
  from Cons.prems obtain v where v: "idxAt idx (f * 3 + k) = Some v" "v < length vf"
    and e: "expand idx vf f ks (fold visit (vf ! v) (visited, stack)) = Inr (visited', stack')"
    by (auto split: option.splits if_splits)
  obtain v1 s1 where fv: "fold visit (vf ! v) (visited, stack) = (v1, s1)"
    by (cases "fold visit (vf ! v) (visited, stack)")
  from fold_visit_stack[OF fv] v(2) have "set s1 \<subseteq> set stack \<union> (\<Union>row \<in> set vf. set row)"
    by (auto dest: nth_mem)
  moreover from Cons.IH[of v1 s1] e fv have "set stack' \<subseteq> set s1 \<union> (\<Union>row \<in> set vf. set row)"
    by simp
  ultimately show ?case by blast
qed

lemma expand_not_Error: "expand idx vf f ks vs \<noteq> Inl (Error msg)"
  by (induction ks arbitrary: vs) (auto split: option.splits)

lemma flood_sound:
  assumes "flood idx vf visited stack component = Some r"
  shows "(\<forall>row \<in> set vf. \<forall>f \<in> set row. P f) \<longrightarrow> (\<forall>f \<in> set stack. P f)
           \<longrightarrow> (\<forall>f \<in> set component. P f)
           \<longrightarrow> (case r of Inl e \<Rightarrow> e \<noteq> Error msg
                | Inr (visited', component') \<Rightarrow> \<forall>f \<in> set component'. P f)"
  using assms
proof (induction rule: flood.raw_induct[rotated 1, consumes 1])
  case (1 flood' idx vf visited stack component r)
  show ?case
  proof (intro impI)
    assume vf: "\<forall>row \<in> set vf. \<forall>f \<in> set row. P f" and st: "\<forall>f \<in> set stack. P f"
      and co: "\<forall>f \<in> set component. P f"
    show "case r of Inl e \<Rightarrow> e \<noteq> Error msg | Inr (visited', component') \<Rightarrow> \<forall>f \<in> set component'. P f"
    proof (cases "stack = []")
      case True
      with 1(2) co show ?thesis by auto
    next
      case False
      show ?thesis
      proof (cases "expand idx vf (last stack) [0, 1, 2] (visited, butlast stack)")
        case (Inl e)
        with False 1(2) have "r = Inl e" by simp
        moreover from Inl have "e \<noteq> Error msg" using expand_not_Error by metis
        ultimately show ?thesis by simp
      next
        case (Inr vs)
        obtain v1 s1 where vs: "vs = (v1, s1)" by (cases vs)
        with Inr False 1(2) have rec: "flood' idx vf v1 s1 (component @ [last stack]) = Some r"
          by simp
        from expand_stack[OF Inr[unfolded vs]] have "set s1 \<subseteq> set (butlast stack) \<union> (\<Union>row \<in> set vf. set row)" .
        moreover have "set (butlast stack) \<subseteq> set stack" by (auto dest: in_set_butlastD)
        ultimately have s1: "\<forall>f \<in> set s1. P f" using vf st by blast
        from False st have "P (last stack)" by simp
        with co have c1: "\<forall>f \<in> set (component @ [last stack]). P f" by simp
        from 1(1)[OF rec] vf s1 c1 show ?thesis by blast
      qed
    qed
  qed
qed


lemma seedLoop_sound:
  "seedLoop idx vf seeds (visited, best) = Some r \<Longrightarrow>
   \<forall>row \<in> set vf. \<forall>f \<in> set row. P f \<Longrightarrow> \<forall>f \<in> set seeds. P f \<Longrightarrow> \<forall>f \<in> set best. P f \<Longrightarrow>
   (case r of Inl e \<Rightarrow> e \<noteq> Error msg | Inr (visited', best') \<Rightarrow> \<forall>f \<in> set best'. P f)"
proof (induction seeds arbitrary: visited best)
  case Nil
  then show ?case by auto
next
  case (Cons seed seeds)
  show ?case
  proof (cases "seed < length visited \<and> visited ! seed \<noteq> 0")
    case True
    with Cons.prems(1) have "seedLoop idx vf seeds (visited, best) = Some r" by simp
    from Cons.IH[OF this Cons.prems(2) _ Cons.prems(4)] Cons.prems(3) show ?thesis by simp
  next
    case False
    with Cons.prems(1) have eq:
      "(case flood idx vf (visited[seed := 1]) [seed] [] of
           None \<Rightarrow> None
         | Some (Inl e) \<Rightarrow> Some (Inl e)
         | Some (Inr (visited', component)) \<Rightarrow>
             seedLoop idx vf seeds
               (visited', if length component > length best then component else best)) = Some r"
      by (simp only: seedLoop.simps if_False)
    show ?thesis
    proof (cases "flood idx vf (visited[seed := 1]) [seed] []")
      case None
      with eq show ?thesis by (simp only: option.case) simp
    next
      case (Some fr)
      from Cons.prems(3) have sd: "\<forall>f \<in> set [seed]. P f" by simp
      from flood_sound[OF Some, of P msg] Cons.prems(2) sd
      have fs: "case fr of Inl e \<Rightarrow> e \<noteq> Error msg
                | Inr (visited', component') \<Rightarrow> \<forall>f \<in> set component'. P f" by simp
      show ?thesis
      proof (cases fr)
        case (Inl e)
        with Some eq have "r = Inl e" by (simp only: option.case sum.case) simp
        with Inl fs show ?thesis by simp
      next
        case (Inr vc)
        obtain v1 c1 where vc: "vc = (v1, c1)" by (cases vc)
        with Inr fs have c1: "\<forall>f \<in> set c1. P f" by simp
        from Some Inr vc eq have
          rec: "seedLoop idx vf seeds (v1, if length c1 > length best then c1 else best) = Some r"
          by (simp only: option.case sum.case prod.case)
        from c1 Cons.prems(4) have "\<forall>f \<in> set (if length c1 > length best then c1 else best). P f"
          by simp
        from Cons.IH[OF rec Cons.prems(2) _ this] Cons.prems(3) show ?thesis by simp
      qed
    qed
  qed
qed

lemma remapCorner_inv:
  assumes "remapInv numVerts s" and "f * 3 + k < length idx" and "idx ! (f * 3 + k) < numVerts"
  shows "remapInv numVerts (remapCorner idx f k s)"
proof -
  obtain vertMap n newIdx where s: "s = (vertMap, n, newIdx)" by (cases s)
  let ?v = "idx ! (f * 3 + k)"
  from assms(1) s have len: "length vertMap = numVerts"
    and vm: "\<forall>x \<in> set vertMap. x = - 1 \<or> (0 \<le> x \<and> x < int n)"
    and ni: "\<forall>i \<in> set newIdx. i < n" by (simp_all add: remapInv_def)
  from assms(2) have ia: "idxAt idx (f * 3 + k) = Some ?v" by (simp add: idxAt_def)
  from assms(3) len have vl: "?v < length vertMap" by simp
  show ?thesis
  proof (cases "vertMap ! ?v = - 1")
    case True
    then have r: "remapCorner idx f k s = (vertMap[?v := int n], n + 1, newIdx @ [n])"
      using s ia vl by (simp add: remapCorner_def)
    have "\<forall>x \<in> set (vertMap[?v := int n]). x = - 1 \<or> (0 \<le> x \<and> x < int (n + 1))"
    proof
      fix x assume "x \<in> set (vertMap[?v := int n])"
      then have "x = int n \<or> x \<in> set vertMap"
        using set_update_subset_insert[of vertMap ?v "int n"] by auto
      then show "x = - 1 \<or> (0 \<le> x \<and> x < int (n + 1))" using vm by auto
    qed
    moreover have "\<forall>i \<in> set (newIdx @ [n]). i < n + 1" using ni by auto
    ultimately show ?thesis unfolding r remapInv_def using len by simp
  next
    case False
    then have r: "remapCorner idx f k s = (vertMap, n, newIdx @ [nat (vertMap ! ?v)])"
      using s ia vl by (simp add: remapCorner_def)
    from vl have "vertMap ! ?v \<in> set vertMap" by simp
    with vm False have "0 \<le> vertMap ! ?v" "vertMap ! ?v < int n" by auto
    then have "nat (vertMap ! ?v) < n" by simp
    with ni have "\<forall>i \<in> set (newIdx @ [nat (vertMap ! ?v)]). i < n" by auto
    then show ?thesis unfolding r remapInv_def using len vm by simp
  qed
qed

lemma remapCorner_length:
  "length (snd (snd (remapCorner idx f k s))) = length (snd (snd s)) + 1"
  by (cases s) (simp add: remapCorner_def split: option.splits)

lemma remapFace_inv:
  assumes "remapInv numVerts s" and "cornerOk idx numVerts f"
  shows "remapInv numVerts (remapFace idx f s)"
proof -
  from assms(2) have c: "f * 3 + 0 < length idx" "f * 3 + 1 < length idx" "f * 3 + 2 < length idx"
    "idx ! (f * 3 + 0) < numVerts" "idx ! (f * 3 + 1) < numVerts" "idx ! (f * 3 + 2) < numVerts"
    by (simp_all add: cornerOk_def)
  have "remapInv numVerts (remapCorner idx f 0 s)"
    by (rule remapCorner_inv[OF assms(1) c(1) c(4)])
  then have "remapInv numVerts (remapCorner idx f 1 (remapCorner idx f 0 s))"
    by (rule remapCorner_inv[OF _ c(2) c(5)])
  then have "remapInv numVerts (remapCorner idx f 2 (remapCorner idx f 1 (remapCorner idx f 0 s)))"
    by (rule remapCorner_inv[OF _ c(3) c(6)])
  then show ?thesis by (simp add: remapFace_def)
qed

lemma remapFace_length:
  "length (snd (snd (remapFace idx f s))) = length (snd (snd s)) + 3"
  by (simp add: remapFace_def remapCorner_length)

lemma remap_inv:
  "remapInv numVerts s \<Longrightarrow> \<forall>f \<in> set fs. cornerOk idx numVerts f \<Longrightarrow>
   remapInv numVerts (fold (remapFace idx) fs s)"
  by (induction fs arbitrary: s) (simp_all add: remapFace_inv)

lemma remap_length:
  "length (snd (snd (fold (remapFace idx) fs s))) = length (snd (snd s)) + 3 * length fs"
  by (induction fs arbitrary: s) (simp_all add: remapFace_length)

lemma copyVertex_length [simp]: "length (copyVertex pos vertMap v newPos) = length newPos"
  by (simp add: copyVertex_def)

lemma fold_copyVertex_length [simp]:
  "length (fold (copyVertex pos vertMap) vs newPos) = length newPos"
  by (induction vs arbitrary: newPos) simp_all


lemma rowsOk_replicate: "rowsOk idx n (replicate n [])"
  by (simp add: rowsOk_def)

lemma extract_cases:
  assumes "extractLargestComponent pos idx = Some r"
  shows "r = Inr (pos, idx) \<or> r = Inl RangeError
    \<or> (\<exists>e. vertFacesLoop (length pos div 3) idx 0 (replicate (length pos div 3) []) = Inl e
          \<and> r = Inl e)
    \<or> (\<exists>vf sr. vertFacesLoop (length pos div 3) idx 0 (replicate (length pos div 3) []) = Inr vf
          \<and> seedLoop idx vf [0 ..< (length idx + 2) div 3] (replicate (length idx div 3) 0, [])
              = Some sr
          \<and> (case sr of Inl e \<Rightarrow> r = Inl e
              | Inr (visited, bestComp) \<Rightarrow>
                  r = Inr (pos, idx)
                  \<or> (\<exists>vertMap n newIdx.
                        fold (remapFace idx) bestComp (replicate (length pos div 3) (- 1), 0, [])
                          = (vertMap, n, newIdx)
                        \<and> r = Inr (fold (copyVertex pos vertMap) [0 ..< length pos div 3]
                                       (replicate (n * 3) 0), newIdx))))"
proof (cases "length idx < 300 \<or> length pos mod 3 \<noteq> 0")
  case True
  with assms show ?thesis by (auto simp: extractLargestComponent_def split: if_splits)
next
  case False
  let ?N = "length pos div 3"
  from False assms have eq:
    "(case vertFacesLoop ?N idx 0 (replicate ?N []) of
              Inl e \<Rightarrow> Some (Inl e)
            | Inr vertFaces \<Rightarrow>
                (case seedLoop idx vertFaces [0 ..< (length idx + 2) div 3]
                        (replicate (length idx div 3) 0, []) of
                   None \<Rightarrow> None
                 | Some (Inl e) \<Rightarrow> Some (Inl e)
                 | Some (Inr (visited, bestComp)) \<Rightarrow>
                     if length bestComp * 3 = length idx then Some (Inr (pos, idx))
                     else
                       (let (vertMap, newVertCount, newIdx) =
                              fold (remapFace idx) bestComp (replicate ?N (- 1), 0, []);
                            newPos = fold (copyVertex pos vertMap) [0 ..< ?N]
                                          (replicate (newVertCount * 3) 0)
                        in Some (Inr (newPos, newIdx))))) = Some r"
    by (simp add: extractLargestComponent_def Let_def)
  show ?thesis
  proof (cases "vertFacesLoop ?N idx 0 (replicate ?N [])")
    case (Inl e)
    with eq show ?thesis by simp
  next
    case (Inr vf)
    show ?thesis
    proof (cases "seedLoop idx vf [0 ..< (length idx + 2) div 3] (replicate (length idx div 3) 0, [])")
      case None
      with eq Inr show ?thesis by simp
    next
      case (Some sr)
      show ?thesis
      proof (cases sr)
        case (Inl e)
        with eq Inr Some show ?thesis by simp
      next
        case sr: (Inr vb)
        obtain visited bestComp where vb: "vb = (visited, bestComp)" by (cases vb)
        obtain vertMap n newIdx where
          rm: "fold (remapFace idx) bestComp (replicate ?N (- 1), 0, []) = (vertMap, n, newIdx)"
          by (cases "fold (remapFace idx) bestComp (replicate ?N (- 1), 0, [])") auto
        from eq Inr Some sr vb rm have
          "r = Inr (pos, idx) \<or> r = Inr (fold (copyVertex pos vertMap) [0 ..< ?N]
                                       (replicate (n * 3) 0), newIdx)"
          by (simp split: if_splits)
        with Inr Some sr vb rm show ?thesis by auto
      qed
    qed
  qed
qed

lemma extract_not_Error: "extractLargestComponent pos idx \<noteq> Some (Inl (Error msg))"
proof
  assume a: "extractLargestComponent pos idx = Some (Inl (Error msg))"
  from extract_cases[OF a] show False
  proof (elim disjE exE conjE)
    fix e
    assume "vertFacesLoop (length pos div 3) idx 0 (replicate (length pos div 3) []) = Inl e"
      and "Inl (Error msg) = (Inl e :: error + real list \<times> nat list)"
    then show False using vertFacesLoop_not_Error by auto
  next
    fix vf sr
    assume sl: "seedLoop idx vf [0 ..< (length idx + 2) div 3] (replicate (length idx div 3) 0, [])
              = Some sr"
      and c: "case sr of Inl e \<Rightarrow> (Inl (Error msg) :: error + real list \<times> nat list) = Inl e
              | Inr (visited, bestComp) \<Rightarrow>
                  Inl (Error msg) = Inr (pos, idx)
                  \<or> (\<exists>vertMap n newIdx.
                        fold (remapFace idx) bestComp (replicate (length pos div 3) (- 1), 0, [])
                          = (vertMap, n, newIdx)
                        \<and> Inl (Error msg) = Inr (fold (copyVertex pos vertMap) [0 ..< length pos div 3]
                                       (replicate (n * 3) 0), newIdx))"
    from seedLoop_sound[OF sl, of "\<lambda>_. True" msg] have "case sr of Inl e \<Rightarrow> e \<noteq> Error msg | Inr _ \<Rightarrow> True"
      by (auto split: sum.splits)
    with c show False by (auto split: sum.splits)
  qed simp_all
qed

lemma extract_valid:
  assumes "extractLargestComponent pos idx = Some (Inr (pos', idx'))"
    and "validIndices (length pos) idx"
  shows "validIndices (length pos') idx'"
proof -
  let ?N = "length pos div 3"
  from extract_cases[OF assms(1)] show ?thesis
  proof (elim disjE exE conjE)
    assume "Inr (pos', idx') = (Inr (pos, idx) :: error + real list \<times> nat list)"
    with assms(2) show ?thesis by simp
  next
    fix vf sr
    assume vl: "vertFacesLoop ?N idx 0 (replicate ?N []) = Inr vf"
      and sl: "seedLoop idx vf [0 ..< (length idx + 2) div 3] (replicate (length idx div 3) 0, [])
              = Some sr"
      and c: "case sr of Inl e \<Rightarrow> (Inr (pos', idx') :: error + real list \<times> nat list) = Inl e
              | Inr (visited, bestComp) \<Rightarrow>
                  Inr (pos', idx') = Inr (pos, idx)
                  \<or> (\<exists>vertMap n newIdx.
                        fold (remapFace idx) bestComp (replicate ?N (- 1), 0, [])
                          = (vertMap, n, newIdx)
                        \<and> Inr (pos', idx') = Inr (fold (copyVertex pos vertMap) [0 ..< ?N]
                                       (replicate (n * 3) 0), newIdx))"
    from vertFacesLoop_rowsOk[OF vl rowsOk_replicate]
    have ro: "rowsOk idx ?N vf" and all: "\<forall>f'. 0 \<le> f' \<and> f' * 3 < length idx \<longrightarrow> cornerOk idx ?N f'"
      by simp_all
    from ro have rows: "\<forall>row \<in> set vf. \<forall>f \<in> set row. cornerOk idx ?N f" by (simp add: rowsOk_def)
    have seeds: "\<forall>f \<in> set [0 ..< (length idx + 2) div 3]. cornerOk idx ?N f"
    proof
      fix f assume "f \<in> set [0 ..< (length idx + 2) div 3]"
      then have "f * 3 < length idx" by auto
      with all show "cornerOk idx ?N f" by simp
    qed
    from seedLoop_sound[OF sl rows seeds, of msg] have
      best: "case sr of Inl e \<Rightarrow> True | Inr (visited', best') \<Rightarrow> \<forall>f \<in> set best'. cornerOk idx ?N f"
      for msg by (auto split: sum.splits)
    from c obtain visited bestComp where sr: "sr = Inr (visited, bestComp)"
      by (cases sr) auto
    with best have bc: "\<forall>f \<in> set bestComp. cornerOk idx ?N f" by simp
    from c sr consider "pos' = pos \<and> idx' = idx"
      | vertMap n newIdx where
        "fold (remapFace idx) bestComp (replicate ?N (- 1), 0, []) = (vertMap, n, newIdx)"
        "pos' = fold (copyVertex pos vertMap) [0 ..< ?N] (replicate (n * 3) 0)" "idx' = newIdx"
      by auto
    then show ?thesis
    proof cases
      case 1
      with assms(2) show ?thesis by simp
    next
      case 2
      have "remapInv ?N (replicate ?N (- 1), 0, [])" by (simp add: remapInv_def)
      from remap_inv[OF this bc] 2(1) have "remapInv ?N (vertMap, n, newIdx)" by simp
      then have lt: "\<forall>i \<in> set newIdx. i < n" by (simp add: remapInv_def)
      from remap_length[of idx bestComp "(replicate ?N (- 1), 0, [])"] 2(1)
      have "length newIdx = 3 * length bestComp" by simp
      then have "length newIdx mod 3 = 0" by simp
      moreover have "length pos' = n * 3" using 2(2) by simp
      ultimately show ?thesis using lt 2(3) by (simp add: validIndices_def)
    qed
  qed simp_all
qed

subsection \<open>The flood fill ends\<close>

lemma zeros_update:
  "i < length xs \<Longrightarrow> xs ! i = 0 \<Longrightarrow> zeros (xs[i := 1]) + 1 = zeros xs"
proof (induction xs arbitrary: i)
  case Nil
  then show ?case by simp
next
  case (Cons x xs)
  show ?case
  proof (cases i)
    case 0
    with Cons.prems show ?thesis by (simp add: zeros_def)
  next
    case (Suc j)
    with Cons.prems have "zeros (xs[j := 1]) + 1 = zeros xs" by (intro Cons.IH) simp_all
    with Suc show ?thesis by (simp add: zeros_def)
  qed
qed

lemma visit_measure:
  assumes "nf < length (fst vs)"
  shows "floodMeasure (visit nf vs) = floodMeasure vs \<and> length (fst (visit nf vs)) = length (fst vs)
         \<and> set (snd (visit nf vs)) \<subseteq> insert nf (set (snd vs))"
proof -
  obtain visited stack where vs: "vs = (visited, stack)" by (cases vs)
  show ?thesis
  proof (cases "visited ! nf = 0")
    case True
    with assms vs have "visit nf vs = (visited[nf := 1], stack @ [nf])" by (simp add: visit_def)
    moreover from zeros_update[of nf visited] assms vs True
    have "zeros (visited[nf := 1]) + 1 = zeros visited" by simp
    ultimately show ?thesis using vs by (auto simp: floodMeasure_def)
  next
    case False
    with assms vs have "visit nf vs = vs" by (simp add: visit_def)
    then show ?thesis by auto
  qed
qed

lemma fold_visit_measure:
  "\<forall>nf \<in> set nfs. nf < length (fst vs) \<Longrightarrow>
   floodMeasure (fold visit nfs vs) = floodMeasure vs
   \<and> length (fst (fold visit nfs vs)) = length (fst vs)
   \<and> set (snd (fold visit nfs vs)) \<subseteq> set nfs \<union> set (snd vs)"
proof (induction nfs arbitrary: vs)
  case Nil
  then show ?case by simp
next
  case (Cons nf nfs)
  from Cons.prems have nf: "nf < length (fst vs)" by simp
  note v = visit_measure[OF nf]
  from Cons.prems v have "\<forall>n \<in> set nfs. n < length (fst (visit nf vs))" by simp
  from Cons.IH[OF this] v show ?case by auto
qed

lemma expand_measure:
  assumes rows: "\<forall>row \<in> set vf. \<forall>f \<in> set row. f < length (fst vs) \<and> Q f"
    and ks: "\<forall>k \<in> set ks. \<exists>v. idxAt idx (f * 3 + k) = Some v \<and> v < length vf"
    and st: "\<forall>f \<in> set (snd vs). Q f"
  shows "\<exists>vs'. expand idx vf f ks vs = Inr vs' \<and> floodMeasure vs' = floodMeasure vs
           \<and> length (fst vs') = length (fst vs) \<and> (\<forall>f \<in> set (snd vs'). Q f)"
  using ks rows st
proof (induction ks arbitrary: vs)
  case Nil
  then show ?case by simp
next
  case (Cons k ks)
  from Cons.prems(1) obtain v where v: "idxAt idx (f * 3 + k) = Some v" "v < length vf" by auto
  then have mem: "vf ! v \<in> set vf" by simp
  with Cons.prems(2) have r: "\<forall>nf \<in> set (vf ! v). nf < length (fst vs)" by blast
  note fm = fold_visit_measure[OF r]
  let ?vs1 = "fold visit (vf ! v) vs"
  have rows1: "\<forall>row \<in> set vf. \<forall>f \<in> set row. f < length (fst ?vs1) \<and> Q f"
    using Cons.prems(2) fm by simp
  have st1: "\<forall>f \<in> set (snd ?vs1). Q f"
  proof
    fix f' assume "f' \<in> set (snd ?vs1)"
    with fm have "f' \<in> set (vf ! v) \<or> f' \<in> set (snd vs)" by auto
    then show "Q f'" using Cons.prems(2,3) mem by blast
  qed
  from Cons.prems(1) have ks': "\<forall>k \<in> set ks. \<exists>v. idxAt idx (f * 3 + k) = Some v \<and> v < length vf"
    by simp
  from Cons.IH[OF ks' rows1 st1] obtain vs' where
    "expand idx vf f ks ?vs1 = Inr vs'" "floodMeasure vs' = floodMeasure ?vs1"
    "length (fst vs') = length (fst ?vs1)" "\<forall>f \<in> set (snd vs'). Q f" by blast
  with fm v show ?case by simp
qed

lemma cornerOk_idxAt:
  assumes "cornerOk idx n f" and "k \<in> set [0, 1, 2]"
  shows "\<exists>v. idxAt idx (f * 3 + k) = Some v \<and> v < n"
  using assms by (auto simp: cornerOk_def idxAt_def)

lemma flood_returns:
  assumes "\<forall>row \<in> set vf. \<forall>f \<in> set row. f < length visited \<and> cornerOk idx (length vf) f"
    and "\<forall>f \<in> set stack. cornerOk idx (length vf) f"
  shows "\<exists>visited' component'.
           flood idx vf visited stack component = Some (Inr (visited', component'))
           \<and> length visited' = length visited"
  using assms
proof (induction "floodMeasure (visited, stack)" arbitrary: visited stack component rule: less_induct)
  case less
  show ?case
  proof (cases "stack = []")
    case True
    then show ?thesis by (subst flood.simps) simp
  next
    case False
    let ?f = "last stack"
    let ?vs = "(visited, butlast stack)"
    from False less.prems(2) have cf: "cornerOk idx (length vf) ?f" by simp
    have ks: "\<forall>k \<in> set [0, 1, 2]. \<exists>v. idxAt idx (?f * 3 + k) = Some v \<and> v < length vf"
      using cornerOk_idxAt[OF cf] by blast
    have rows: "\<forall>row \<in> set vf. \<forall>f \<in> set row. f < length (fst ?vs) \<and> cornerOk idx (length vf) f"
      using less.prems(1) by simp
    have st: "\<forall>f \<in> set (snd ?vs). cornerOk idx (length vf) f"
      using less.prems(2) by (auto dest: in_set_butlastD)
    from expand_measure[OF rows ks st] obtain vs' where
      e: "expand idx vf ?f [0, 1, 2] ?vs = Inr vs'" and m: "floodMeasure vs' = floodMeasure ?vs"
      and l: "length (fst vs') = length (fst ?vs)"
      and q: "\<forall>f \<in> set (snd vs'). cornerOk idx (length vf) f" by blast
    obtain v1 s1 where vs': "vs' = (v1, s1)" by (cases vs')
    from False have "length (butlast stack) < length stack" by simp
    then have "floodMeasure ?vs < floodMeasure (visited, stack)" by (simp add: floodMeasure_def)
    with m vs' have dec: "floodMeasure (v1, s1) < floodMeasure (visited, stack)" by simp
    from l vs' have l1: "length v1 = length visited" by simp
    have rows1: "\<forall>row \<in> set vf. \<forall>f \<in> set row. f < length v1 \<and> cornerOk idx (length vf) f"
      using less.prems(1) l1 by simp
    from q vs' have st1: "\<forall>f \<in> set s1. cornerOk idx (length vf) f" by simp
    from less.hyps[OF dec rows1 st1, of "component @ [?f]"] obtain visited' component' where
      "flood idx vf v1 s1 (component @ [?f]) = Some (Inr (visited', component'))"
      "length visited' = length v1" by blast
    with False e vs' l1 show ?thesis by (subst flood.simps) simp
  qed
qed

lemma seedLoop_returns:
  "\<forall>row \<in> set vf. \<forall>f \<in> set row. f < length visited \<and> cornerOk idx (length vf) f \<Longrightarrow>
   \<forall>f \<in> set seeds. cornerOk idx (length vf) f \<Longrightarrow>
   \<exists>visited' best'. seedLoop idx vf seeds (visited, best) = Some (Inr (visited', best'))"
proof (induction seeds arbitrary: visited best)
  case Nil
  then show ?case by simp
next
  case (Cons seed seeds)
  from Cons.prems(2) have tl: "\<forall>f \<in> set seeds. cornerOk idx (length vf) f" by simp
  show ?case
  proof (cases "seed < length visited \<and> visited ! seed \<noteq> 0")
    case True
    with Cons.IH[OF Cons.prems(1) tl, of best] show ?thesis by simp
  next
    case False
    have rows: "\<forall>row \<in> set vf. \<forall>f \<in> set row. f < length (visited[seed := 1])
        \<and> cornerOk idx (length vf) f" using Cons.prems(1) by simp
    have sd: "\<forall>f \<in> set [seed]. cornerOk idx (length vf) f" using Cons.prems(2) by simp
    from flood_returns[OF rows sd, of "[]"] obtain v1 c1 where
      fl: "flood idx vf (visited[seed := 1]) [seed] [] = Some (Inr (v1, c1))"
      and l: "length v1 = length (visited[seed := 1])" by blast
    have rows1: "\<forall>row \<in> set vf. \<forall>f \<in> set row. f < length v1 \<and> cornerOk idx (length vf) f"
      using Cons.prems(1) l by simp
    from Cons.IH[OF rows1 tl, of "if length c1 > length best then c1 else best"] obtain v2 b2 where
      "seedLoop idx vf seeds (v1, if length c1 > length best then c1 else best)
         = Some (Inr (v2, b2))" by blast
    with False fl show ?thesis by (simp only: seedLoop.simps if_False option.case sum.case prod.case) blast
  qed
qed


lemma vertFacesFace_succeeds:
  assumes "3 dvd length idx" and "\<forall>i \<in> set idx. i < n" and "f * 3 < length idx"
  shows "\<exists>t'. vertFacesFace n idx f t = Inr t'"
proof -
  from assms(1,3) have "f * 3 + 2 < length idx" by (auto elim!: dvdE)
  then have "f * 3 < length idx" "f * 3 + 1 < length idx" "f * 3 + 2 < length idx" by simp_all
  with assms(2) show ?thesis
    by (simp add: vertFacesFace_def idxAt_def Let_def)
qed

lemma vertFacesLoop_succeeds:
  "3 dvd length idx \<Longrightarrow> \<forall>i \<in> set idx. i < n \<Longrightarrow> \<exists>t'. vertFacesLoop n idx f t = Inr t'"
proof (induction n idx f t rule: vertFacesLoop.induct)
  case (1 n idx f t)
  show ?case
  proof (cases "f * 3 < length idx")
    case True
    from vertFacesFace_succeeds[OF "1.prems" True] obtain t1 where
      a: "vertFacesFace n idx f t = Inr t1" by blast
    from "1.IH"[OF True a "1.prems"] obtain t' where "vertFacesLoop n idx (f + 1) t1 = Inr t'"
      by blast
    with True a show ?thesis by (subst vertFacesLoop.simps) simp
  next
    case False
    then show ?thesis by (subst vertFacesLoop.simps) simp
  qed
qed

lemma cornerOk_less: "cornerOk idx n f \<Longrightarrow> f < length idx div 3"
  by (simp add: cornerOk_def) presburger

lemma extract_returns:
  assumes "validIndices (length pos) idx"
  shows "\<exists>pos' idx'. extractLargestComponent pos idx = Some (Inr (pos', idx'))"
proof (cases "length idx < 300")
  case True
  then show ?thesis by (simp add: extractLargestComponent_def)
next
  case False
  let ?N = "length pos div 3"
  from assms have m3: "length pos mod 3 = 0" and d3: "3 dvd length idx"
    and lt: "\<forall>i \<in> set idx. i < ?N" by (auto simp: validIndices_def)
  from vertFacesLoop_succeeds[OF d3 lt] obtain vf where
    vl: "vertFacesLoop ?N idx 0 (replicate ?N []) = Inr vf" by blast
  from vertFacesLoop_rowsOk[OF vl rowsOk_replicate]
  have ro: "rowsOk idx ?N vf" and all: "\<forall>f'. 0 \<le> f' \<and> f' * 3 < length idx \<longrightarrow> cornerOk idx ?N f'"
    by simp_all
  from ro have lvf: "length vf = ?N" by (simp add: rowsOk_def)
  have rows: "\<forall>row \<in> set vf. \<forall>f \<in> set row.
      f < length (replicate (length idx div 3) (0 :: nat)) \<and> cornerOk idx (length vf) f"
  proof (intro ballI)
    fix row f assume "row \<in> set vf" "f \<in> set row"
    with ro have c: "cornerOk idx ?N f" by (simp add: rowsOk_def)
    from cornerOk_less[OF c] c lvf
    show "f < length (replicate (length idx div 3) (0 :: nat)) \<and> cornerOk idx (length vf) f"
      by simp
  qed
  have seeds: "\<forall>f \<in> set [0 ..< (length idx + 2) div 3]. cornerOk idx (length vf) f"
  proof
    fix f assume "f \<in> set [0 ..< (length idx + 2) div 3]"
    then have "f * 3 < length idx" by auto
    with all lvf show "cornerOk idx (length vf) f" by simp
  qed
  from seedLoop_returns[OF rows seeds, of "[]"] obtain visited bestComp where
    sl: "seedLoop idx vf [0 ..< (length idx + 2) div 3] (replicate (length idx div 3) 0, [])
       = Some (Inr (visited, bestComp))" by blast
  show ?thesis
    using False m3 vl sl
    by (auto simp: extractLargestComponent_def Let_def split: prod.splits)
qed


section \<open>Properties of the run\<close>

lemma pipeline_InrD:
  assumes "pipeline T p sz cs rs = Some (Inr m)"
  shows "\<exists>pos1 idx out.
      (if \<not> useFrame_d p
       then extractLargestComponent
              (positions (marchingCubes (grid sz cs rs) T
                 (voidBoundary (grid sz cs rs) (buildField (grid sz cs rs) p))))
              (map toUint32 (faceIndices (marchingCubes (grid sz cs rs) T
                 (voidBoundary (grid sz cs rs) (buildField (grid sz cs rs) p)))))
       else Some (Inr (positions (marchingCubes (grid sz cs rs) T
                 (voidBoundary (grid sz cs rs) (buildField (grid sz cs rs) p))),
               map toUint32 (faceIndices (marchingCubes (grid sz cs rs) T
                 (voidBoundary (grid sz cs rs) (buildField (grid sz cs rs) p))))))) = Some (Inr (pos1, idx))
      \<and> (if smoothingIterations_d p > 0 then taubinSmooth pos1 idx (smoothingIterations_d p)
          else Inr pos1) = Inr out
      \<and> m = \<lparr> vertices = map Num out, normals = computeVertexNormals out idx,
               indices = Some idx \<rparr>"
  using assms unfolding pipeline_def Let_def
  by (auto split: option.splits sum.splits prod.splits)

lemma pipeline_valid:
  assumes "tablesOk T" and "pipeline T p sz cs rs = Some (Inr m)"
  shows "wellFormed m"
proof -
  let ?g = "grid sz cs rs"
  let ?st = "marchingCubes ?g T (voidBoundary ?g (buildField ?g p))"
  from pipeline_InrD[OF assms(2)] obtain pos1 idx out where
    ex: "(if \<not> useFrame_d p
       then extractLargestComponent (positions ?st) (map toUint32 (faceIndices ?st))
       else Some (Inr (positions ?st, map toUint32 (faceIndices ?st)))) = Some (Inr (pos1, idx))"
    and sm: "(if smoothingIterations_d p > 0 then taubinSmooth pos1 idx (smoothingIterations_d p)
          else Inr pos1) = Inr out"
    and m: "m = \<lparr> vertices = map Num out, normals = computeVertexNormals out idx,
               indices = Some idx \<rparr>" by blast
  have v0: "validIndices (length (positions ?st)) (map toUint32 (faceIndices ?st))"
    by (rule marchingCubes_valid[OF assms(1)])
  have v1: "validIndices (length pos1) idx"
  proof (cases "useFrame_d p")
    case True
    with ex v0 show ?thesis by simp
  next
    case False
    with ex have "extractLargestComponent (positions ?st) (map toUint32 (faceIndices ?st))
        = Some (Inr (pos1, idx))" by simp
    from extract_valid[OF this v0] show ?thesis .
  qed
  have "length out = length pos1"
    using sm taubinSmooth_length by (auto split: if_splits)
  with v1 m show ?thesis by (simp add: wellFormed_def)
qed

lemma pipeline_not_Error: "pipeline T p sz cs rs \<noteq> Some (Inl (Error msg))"
  unfolding pipeline_def Let_def
  using extract_not_Error taubinSmooth_not_Error
  by (auto split: option.splits sum.splits prod.splits if_splits)

lemma generate_valid:
  assumes "tablesOk T" and "generateGyroidMesh T p = Some (Inr m)"
  shows "wellFormed m"
  using assms pipeline_valid
  by (auto simp: generateGyroidMesh_def split: option.splits)

lemma pipeline_returns:
  assumes "tablesOk T"
  shows "\<exists>m. pipeline T p sz cs rs = Some (Inr m)"
proof -
  let ?g = "grid sz cs rs"
  let ?st = "marchingCubes ?g T (voidBoundary ?g (buildField ?g p))"
  have v0: "validIndices (length (positions ?st)) (map toUint32 (faceIndices ?st))"
    by (rule marchingCubes_valid[OF assms])
  have "\<exists>pos1 idx. (if \<not> useFrame_d p
       then extractLargestComponent (positions ?st) (map toUint32 (faceIndices ?st))
       else Some (Inr (positions ?st, map toUint32 (faceIndices ?st)))) = Some (Inr (pos1, idx))
       \<and> validIndices (length pos1) idx"
  proof (cases "useFrame_d p")
    case True
    with v0 show ?thesis by simp
  next
    case False
    from extract_returns[OF v0] obtain pos1 idx where
      e: "extractLargestComponent (positions ?st) (map toUint32 (faceIndices ?st))
        = Some (Inr (pos1, idx))" by blast
    from extract_valid[OF e v0] e False show ?thesis by simp
  qed
  then obtain pos1 idx where
    ex: "(if \<not> useFrame_d p
       then extractLargestComponent (positions ?st) (map toUint32 (faceIndices ?st))
       else Some (Inr (positions ?st, map toUint32 (faceIndices ?st)))) = Some (Inr (pos1, idx))"
    and v1: "validIndices (length pos1) idx" by blast
  from v1 have "3 dvd length idx" "\<forall>i \<in> set idx. i < length pos1 div 3" "length pos1 mod 3 = 0"
    by (auto simp: validIndices_def)
  from taubinSmooth_succeeds[OF this] obtain out where
    ts: "taubinSmooth pos1 idx (smoothingIterations_d p) = Inr out" by blast
  show ?thesis
  proof (cases "smoothingIterations_d p > 0")
    case True
    then show ?thesis unfolding pipeline_def Let_def ex by (simp add: ts)
  next
    case False
    then show ?thesis unfolding pipeline_def Let_def ex by simp
  qed
qed

lemma generate_returns:
  assumes "tablesOk T" and "validate p = None"
  shows "\<exists>m. generateGyroidMesh T p = Some (Inr m)"
  using pipeline_returns[OF assms(1)] assms(2) by (simp add: generateGyroidMesh_def)

subsection \<open>Example runs\<close>

lemma list_all_update: "list_all P xs \<Longrightarrow> P v \<Longrightarrow> list_all P (xs[i := v])"
  unfolding list_all_iff using set_update_subset_insert[of xs i v] by auto

lemma list_all_replicate: "P x \<Longrightarrow> list_all P (replicate n x)"
  by (simp add: list_all_iff)

lemma cornerTables_ok: "tablesOk cornerTables"
proof -
  have "list_all (\<lambda>m. m < 4096) EDGE_TABLE_corner"
    unfolding EDGE_TABLE_corner_def by (intro list_all_update list_all_replicate) simp_all
  moreover have "list_all (\<lambda>e. - 1 \<le> e \<and> e < 12) TRI_TABLE_corner"
    unfolding TRI_TABLE_corner_def by (intro list_all_update list_all_replicate) simp_all
  moreover have "length EDGE_TABLE_corner = 256" "length TRI_TABLE_corner = 4096"
    by (simp_all add: EDGE_TABLE_corner_def TRI_TABLE_corner_def)
  ultimately show ?thesis by (simp add: tablesOk_def cornerTables_def list_all_iff)
qed

lemma upt8: "[0 ..< 8] = [0, 1, 2, 3, 4, 5, 6, 7]"
  by (simp add: upt_rec)

lemma upt2: "[0 ..< 2] = [0, 1]"
  by (simp add: upt_rec)

lemma grid1: "grid 100 25 1 = \<lparr> snappedCellCount = 4, snappedCellSize = 25, scale = 2 * pi / 25,
    res = 1, step = 100, half = 50, np = 2, np2 = 4, total = 8 \<rparr>"
  by (simp add: grid_def Let_def js_round_def)

lemma field1: "voidBoundary (grid 100 25 1) (buildField (grid 100 25 1) p) = [0, 0, 0, 0, 0, 0, 0, 0]"
  by (simp add: grid1 voidBoundary_def buildField_def voidAt_def upt2 upt8)

lemma edge255: "edgeEntry cornerTables 255 = Some 0"
  by (simp add: edgeEntry_def cornerTables_def EDGE_TABLE_corner_def)

lemma ci1: "cubeIndexOf (grid 100 25 1) [0, 0, 0, 0, 0, 0, 0, 0] 0 = 255"
  by (simp add: cubeIndexOf_def upt8 solidAt_def cornerOff_def dX_def dY_def dZ_def grid1)

lemma mc1: "marchingCubes (grid 100 25 1) cornerTables [0, 0, 0, 0, 0, 0, 0, 0] = mc_init (grid 100 25 1)"
proof -
  have "cube (grid 100 25 1) cornerTables [0, 0, 0, 0, 0, 0, 0, 0] 0 0 0 st = st" for st
    using ci1 by (simp add: cube_def edge255 Let_def)
  moreover have "[0 ..< res (grid 100 25 1)] = [0]" by (simp add: grid1)
  ultimately show ?thesis by (simp add: marchingCubes_def)
qed

lemma empty_run:
  assumes "size_p p = Num 100" and "cellSize p = Num 25" and "resolution p = Num 1"
  shows "generateGyroidMesh cornerTables p = Some (Inr emptyMesh)"
proof -
  have v: "validate p = None" using assms by (simp add: validate_def falsy_def jle0_def)
  have e: "extractLargestComponent [] [] = Some (Inr ([], []))"
    by (simp add: extractLargestComponent_def)
  have t: "taubinSmooth [] [] n = Inr []" for n by (simp add: taubinSmooth_def)
  have n: "computeVertexNormals [] [] = []" by (simp add: computeVertexNormals_def)
  have "pipeline cornerTables p 100 25 1 = Some (Inr emptyMesh)"
    unfolding pipeline_def Let_def field1 mc1
    by (simp add: mc_init_def e t n emptyMesh_def)
  then show ?thesis using assms v by (simp add: generateGyroidMesh_def)
qed

lemma upt12: "[0 ..< 12] = [0, 1, 2, 3, 4, 5, 6, 7, 8, 9, 10, 11]"
  by (simp add: upt_rec)

lemma grid2:
  "res (grid 100 25 2) = 2" "np (grid 100 25 2) = 3" "np2 (grid 100 25 2) = 9"
  "total (grid 100 25 2) = 27" "step (grid 100 25 2) = 50" "half (grid 100 25 2) = 50"
  by (simp_all add: grid_def Let_def)

lemma solid2: "solidAt centreField i = (if i < 27 then Some (if i = 13 then 1 else 0) else None)"
  by (simp add: solidAt_def centreField_def nth_list_update)

lemma ci2:
  "cubeIndexOf (grid 100 25 2) centreField 0 = 191"
  "cubeIndexOf (grid 100 25 2) centreField (Suc 0) = 127"
  "cubeIndexOf (grid 100 25 2) centreField 3 = 223"
  "cubeIndexOf (grid 100 25 2) centreField 4 = 239"
  "cubeIndexOf (grid 100 25 2) centreField 9 = 251"
  "cubeIndexOf (grid 100 25 2) centreField 10 = 247"
  "cubeIndexOf (grid 100 25 2) centreField 12 = 253"
  "cubeIndexOf (grid 100 25 2) centreField 13 = 254"
  by (simp_all add: cubeIndexOf_def upt8 solid2 cornerOff_def dX_def dY_def dZ_def grid2)

lemma edges2:
  "edgeEntry cornerTables 191 = Some 0x460" "edgeEntry cornerTables 127 = Some 0x8c0"
  "edgeEntry cornerTables 223 = Some 0x230" "edgeEntry cornerTables 239 = Some 0x190"
  "edgeEntry cornerTables 251 = Some 0x406" "edgeEntry cornerTables 247 = Some 0x80c"
  "edgeEntry cornerTables 253 = Some 0x203" "edgeEntry cornerTables 254 = Some 0x109"
  by (simp_all add: edgeEntry_def cornerTables_def EDGE_TABLE_corner_def)

lemma active2:
  "activeEdges (grid 100 25 2) cornerTables centreField 0 = [(1, 10), (0, 12), (2, 4)]"
  "activeEdges (grid 100 25 2) cornerTables centreField 1 = [(0, 13), (1, 10), (2, 4)]"
  "activeEdges (grid 100 25 2) cornerTables centreField 3 = [(0, 12), (1, 13), (2, 4)]"
  "activeEdges (grid 100 25 2) cornerTables centreField 4 = [(0, 13), (1, 13), (2, 4)]"
  "activeEdges (grid 100 25 2) cornerTables centreField 9 = [(1, 10), (0, 12), (2, 13)]"
  "activeEdges (grid 100 25 2) cornerTables centreField 10 = [(0, 13), (1, 10), (2, 13)]"
  "activeEdges (grid 100 25 2) cornerTables centreField 12 = [(0, 12), (1, 13), (2, 13)]"
  "activeEdges (grid 100 25 2) cornerTables centreField 13 = [(0, 13), (1, 13), (2, 13)]"
  by (simp_all add: activeEdges_def ci2 edges2 upt12 EDGE_DIR_def EDGE_CACHE_CORNER_def
      cornerOff_def dX_def dY_def dZ_def grid2)


lemma sweep2:
  "sweep (grid 100 25 2) cornerTables centreField
     = [(1, 10), (0, 12), (2, 4), (0, 13), (1, 10), (2, 4), (0, 12), (1, 13), (2, 4),
        (0, 13), (1, 13), (2, 4), (1, 10), (0, 12), (2, 13), (0, 13), (1, 10), (2, 13),
        (0, 12), (1, 13), (2, 13), (0, 13), (1, 13), (2, 13)]"
  using active2 by (simp add: sweep_def grid2 upt2)

lemma uniq2:
  "uniq (sweep (grid 100 25 2) cornerTables centreField)
     = [(1, 10), (0, 12), (2, 4), (0, 13), (1, 13), (2, 13)]"
  by (simp add: sweep2 uniq_def)

lemma vertex2:
  "vertexOf (grid 100 25 2) centreField (Suc 0, 10) = [0, - 25, 0]"
  "vertexOf (grid 100 25 2) centreField (0, 12) = [- 25, 0, 0]"
  "vertexOf (grid 100 25 2) centreField (2, 4) = [0, 0, - 25]"
  "vertexOf (grid 100 25 2) centreField (0, 13) = [25, 0, 0]"
  "vertexOf (grid 100 25 2) centreField (Suc 0, 13) = [0, 25, 0]"
  "vertexOf (grid 100 25 2) centreField (2, 13) = [0, 0, 25]"
  by (simp_all add: vertexOf_def edgePosition_def solid2 axisDelta_def grid2 Let_def)

lemma positions2:
  "positions (marchingCubes (grid 100 25 2) cornerTables centreField)
     = [0, - 25, 0, - 25, 0, 0, 0, 0, - 25, 25, 0, 0, 0, 25, 0, 0, 0, 25]"
  by (simp add: marchingCubes_order uniq2 vertex2)

subsection \<open>The claims about the run\<close>

lemma notPositive_iff: "notPositive x \<longleftrightarrow> falsy x \<or> jle0 x"
  by (cases x) (auto simp: notPositive_def falsy_def jle0_def)

lemma validate_notPositive:
  "validate p = None \<longleftrightarrow>
     \<not> (notPositive (size_p p) \<or> notPositive (cellSize p) \<or> notPositive (resolution p))"
  by (auto simp: validate_def notPositive_iff)

text \<open>
  Claim C1. With tables of the shape that the specification describes, every successful run
  returns a well-formed mesh: the number of indices is a multiple of three and every
  index is below the number of vertices. This holds for the output of the marching cubes,
  is kept by the component extraction, and is kept by the smoothing.
\<close>

theorem generate_well_formed:
  assumes "tablesOk T"
  shows "validIndices (length (positions (marchingCubes g T solidField)))
           (map toUint32 (faceIndices (marchingCubes g T solidField)))
    \<and> (validIndices (length pos) idx \<and> extractLargestComponent pos idx = Some (Inr (pos', idx'))
         \<longrightarrow> validIndices (length pos') idx')
    \<and> (validIndices (length pos) idx \<and> taubinSmooth pos idx iterations = Inr out
         \<longrightarrow> validIndices (length out) idx)
    \<and> (generateGyroidMesh T p = Some (Inr m) \<longrightarrow> wellFormed m)"
proof (intro conjI impI)
  show "validIndices (length (positions (marchingCubes g T solidField)))
           (map toUint32 (faceIndices (marchingCubes g T solidField)))"
    by (rule marchingCubes_valid[OF assms])
next
  assume "validIndices (length pos) idx \<and> extractLargestComponent pos idx = Some (Inr (pos', idx'))"
  then show "validIndices (length pos') idx'" using extract_valid by blast
next
  assume a: "validIndices (length pos) idx \<and> taubinSmooth pos idx iterations = Inr out"
  then have "length out = length pos" using taubinSmooth_length by blast
  with a show "validIndices (length out) idx" by simp
next
  assume "generateGyroidMesh T p = Some (Inr m)"
  then show "wellFormed m" by (rule generate_valid[OF assms])
qed

lemma triangle_valid: "validIndices (length [0, 0, 0, 1, 0, 0, 0, 1, 0 :: real]) [0, 1, 2]"
  by (simp add: validIndices_def)

lemma appParams_valid: "validate appParams = None"
  by (simp add: validate_def appParams_def falsy_def jle0_def)

theorem generate_well_formed_witness:
  "tablesOk cornerTables
   \<and> (\<exists>m. generateGyroidMesh cornerTables appParams = Some (Inr m) \<and> wellFormed m)
   \<and> generateGyroidMesh cornerTables (appParams\<lparr>resolution := Num 1\<rparr>) = Some (Inr emptyMesh)
   \<and> wellFormed emptyMesh
   \<and> validIndices (length [0, 0, 0, 1, 0, 0, 0, 1, 0 :: real]) [0, 1, 2]
   \<and> extractLargestComponent [0, 0, 0, 1, 0, 0, 0, 1, 0] [0, 1, 2]
        = Some (Inr ([0, 0, 0, 1, 0, 0, 0, 1, 0], [0, 1, 2]))
   \<and> taubinSmooth [0, 0, 0, 1, 0, 0, 0, 1, 0] [0, 1, 2] 1
        = Inr [147 / 800, 147 / 800, 0, 253 / 400, 147 / 800, 0, 147 / 800, 253 / 400, 0]
   \<and> validIndices
        (length [147 / 800, 147 / 800, 0, 253 / 400, 147 / 800, 0, 147 / 800, 253 / 400, 0 :: real])
        [0, 1, 2]"
proof -
  note ok = cornerTables_ok
  from generate_returns[OF ok appParams_valid] obtain m where
    m: "generateGyroidMesh cornerTables appParams = Some (Inr m)" by blast
  from generate_well_formed[OF ok, of _ _ _ _ _ _ _ _ appParams m] m
  have w: "wellFormed m" by blast
  have e: "generateGyroidMesh cornerTables (appParams\<lparr>resolution := Num 1\<rparr>) = Some (Inr emptyMesh)"
    by (rule empty_run) (simp_all add: appParams_def)
  from generate_well_formed[OF ok, of _ _ _ _ _ _ _ _ "appParams\<lparr>resolution := Num 1\<rparr>" emptyMesh] e
  have we: "wellFormed emptyMesh" by blast
  have x: "extractLargestComponent [0, 0, 0, 1, 0, 0, 0, 1, 0] [0, 1, 2]
        = Some (Inr ([0, 0, 0, 1, 0, 0, 0, 1, 0], [0, 1, 2]))"
    by (simp add: extractLargestComponent_def)
  from generate_well_formed[OF ok, of _ _ "[0, 0, 0, 1, 0, 0, 0, 1, 0]" "[0, 1, 2]" _ _ 1
      "[147 / 800, 147 / 800, 0, 253 / 400, 147 / 800, 0, 147 / 800, 253 / 400, 0]"]
    triangle_valid triangle_smoothed
  have vt: "validIndices
        (length [147 / 800, 147 / 800, 0, 253 / 400, 147 / 800, 0, 147 / 800, 253 / 400, 0 :: real])
        [0, 1, 2]" by blast
  show ?thesis using ok m w e we triangle_valid x triangle_smoothed vt by blast
qed

text \<open>
  Claim C4 as stated fails: a size that is \<open>NaN\<close> is not below or equal to zero, and the run
  still fails with the error of the validation.
\<close>

theorem invalid_parameter_counterexample:
  "generateGyroidMesh cornerTables (appParams\<lparr>size_p := NaN\<rparr>) = Some (Inl (Error ''Invalid size''))
   \<and> \<not> (jle0 (size_p (appParams\<lparr>size_p := NaN\<rparr>))
         \<or> jle0 (cellSize (appParams\<lparr>size_p := NaN\<rparr>))
         \<or> jle0 (resolution (appParams\<lparr>size_p := NaN\<rparr>)))"
  by (simp add: generateGyroidMesh_def validate_def falsy_def jle0_def appParams_def)

text \<open>
  Claim C4, as amended. The run fails with the error of the parameter validation if and
  only if size, cell size or resolution is not strictly positive, that is below or equal
  to zero or \<open>NaN\<close>. The result then is the error alone, no mesh.
\<close>

theorem generate_invalid_parameter:
  "((\<exists>msg. generateGyroidMesh T p = Some (Inl (Error msg)))
      \<longleftrightarrow> notPositive (size_p p) \<or> notPositive (cellSize p) \<or> notPositive (resolution p))
   \<and> (notPositive (size_p p) \<or> notPositive (cellSize p) \<or> notPositive (resolution p)
        \<longrightarrow> (\<forall>m. generateGyroidMesh T p \<noteq> Some (Inr m)))"
proof -
  have 1: "\<exists>msg. generateGyroidMesh T p = Some (Inl (Error msg))"
    if "notPositive (size_p p) \<or> notPositive (cellSize p) \<or> notPositive (resolution p)"
  proof -
    from that have "validate p \<noteq> None" by (simp add: validate_notPositive)
    then obtain e where e: "validate p = Some e" by auto
    from validate_Some[OF e] e show ?thesis by (auto simp: generateGyroidMesh_def)
  qed
  have 2: "notPositive (size_p p) \<or> notPositive (cellSize p) \<or> notPositive (resolution p)"
    if "generateGyroidMesh T p = Some (Inl (Error msg))" for msg
  proof (rule ccontr)
    assume "\<not> ?thesis"
    then have "validate p = None" by (simp add: validate_notPositive)
    with that pipeline_not_Error show False by (simp add: generateGyroidMesh_def)
  qed
  from 1 2 show ?thesis by fastforce
qed

theorem generate_invalid_parameter_witness:
  "notPositive (cellSize (appParams\<lparr>cellSize := Num 0\<rparr>))
   \<and> generateGyroidMesh cornerTables (appParams\<lparr>cellSize := Num 0\<rparr>)
       = Some (Inl (Error ''Invalid cell size''))
   \<and> (\<forall>m. generateGyroidMesh cornerTables (appParams\<lparr>cellSize := Num 0\<rparr>) \<noteq> Some (Inr m))
   \<and> \<not> (notPositive (size_p appParams) \<or> notPositive (cellSize appParams)
         \<or> notPositive (resolution appParams))
   \<and> \<not> (\<exists>msg. generateGyroidMesh cornerTables appParams = Some (Inl (Error msg)))"
proof -
  have a: "notPositive (cellSize (appParams\<lparr>cellSize := Num 0\<rparr>))" by (simp add: notPositive_def)
  have b: "generateGyroidMesh cornerTables (appParams\<lparr>cellSize := Num 0\<rparr>)
       = Some (Inl (Error ''Invalid cell size''))"
    by (simp add: generateGyroidMesh_def validate_def falsy_def)
  have c: "\<not> (notPositive (size_p appParams) \<or> notPositive (cellSize appParams)
         \<or> notPositive (resolution appParams))"
    by (simp add: notPositive_def appParams_def)
  from generate_invalid_parameter[of cornerTables "appParams\<lparr>cellSize := Num 0\<rparr>"] a
  have d: "\<forall>m. generateGyroidMesh cornerTables (appParams\<lparr>cellSize := Num 0\<rparr>) \<noteq> Some (Inr m)"
    by blast
  from generate_invalid_parameter[of cornerTables appParams] c
  have e: "\<not> (\<exists>msg. generateGyroidMesh cornerTables appParams = Some (Inl (Error msg)))"
    by blast
  show ?thesis using a b c d e by blast
qed








end
